theory Spec2Isabelle
  imports Main
begin

section \<open>Python values\<close>

text \<open>
  A Python \<open>str\<close> is a sequence of Unicode code points and is modelled as a list of
  naturals; a \<open>bytes\<close> object is a list of naturals below 256.  The exceptions the modelled
  code can raise are values of \<open>error\<close>; a computation that may raise returns
  \<open>error + 'a\<close> with \<open>Inl\<close> for the exception.
\<close>

datatype error =
    AssertionError
  | ValueError
  | IndexError
  | AttributeError
  | RuntimeError
  | UnicodeDecodeError
  | UnicodeEncodeError
  | TransportError

type_synonym str = "nat list"
type_synonym bytes = "nat list"

definition lit :: "string \<Rightarrow> nat list" where
  \<comment> \<open>an ASCII literal of the source, as a \<open>str\<close> or as \<open>bytes\<close>\<close>
  "lit s = map of_char s"

abbreviation CR :: nat where "CR \<equiv> 13"
abbreviation LF :: nat where "LF \<equiv> 10"
abbreviation BSL :: nat where "BSL \<equiv> 92"
abbreviation SP :: nat where "SP \<equiv> 32"

subsection \<open>String methods\<close>

definition startswith :: "'a list \<Rightarrow> 'a list \<Rightarrow> bool" where
  "startswith s p = (take (length p) s = p)"

definition endswith :: "'a list \<Rightarrow> 'a list \<Rightarrow> bool" where
  "endswith s p = (length p \<le> length s \<and> drop (length s - length p) s = p)"

text \<open>
  \<open>s.replace(old, new)\<close>: the occurrences of \<open>old\<close> are found from left to right and do
  not overlap; the text after a replaced occurrence is scanned, the replacement is not.
\<close>

function str_replace :: "'a list \<Rightarrow> 'a list \<Rightarrow> 'a list \<Rightarrow> 'a list" where
  "str_replace old new [] = (if old = [] then new else [])"
| "str_replace old new (c # cs) =
     (if old = [] then new @ c # str_replace old new cs
      else if startswith (c # cs) old
        then new @ str_replace old new (drop (length old) (c # cs))
      else c # str_replace old new cs)"
  by pat_completeness auto
termination
  by (relation "measure (\<lambda>(old, new, s). length s)") auto

text \<open>\<open>s.find(sub)\<close>: the lowest index where \<open>sub\<close> occurs, or \<open>-1\<close>.\<close>

fun str_find :: "'a list \<Rightarrow> 'a list \<Rightarrow> int" where
  "str_find [] sub = (if sub = [] then 0 else - 1)"
| "str_find (c # cs) sub =
     (if startswith (c # cs) sub then 0
      else (let r = str_find cs sub in if r < 0 then - 1 else r + 1))"

text \<open>\<open>s.strip(chars)\<close>, \<open>s.lstrip(chars)\<close>: drop the characters of \<open>chars\<close> from the ends.\<close>

definition str_lstrip :: "'a list \<Rightarrow> 'a list \<Rightarrow> 'a list" where
  "str_lstrip chars s = dropWhile (\<lambda>c. c \<in> set chars) s"

definition str_rstrip :: "'a list \<Rightarrow> 'a list \<Rightarrow> 'a list" where
  "str_rstrip chars s = rev (dropWhile (\<lambda>c. c \<in> set chars) (rev s))"

definition str_strip :: "'a list \<Rightarrow> 'a list \<Rightarrow> 'a list" where
  "str_strip chars s = str_rstrip chars (str_lstrip chars s)"

text \<open>
  The code points for which \<open>str.isspace\<close> holds: \<open>s.strip()\<close> without an argument,
  \<open>int\<close> and the regular expression classes \<open>\s\<close>, \<open>\S\<close> use this set.
\<close>

definition isspace :: "nat \<Rightarrow> bool" where
  "isspace c = ((9 \<le> c \<and> c \<le> 13) \<or> (28 \<le> c \<and> c \<le> 32) \<or> c = 0x85 \<or> c = 0xA0
      \<or> c = 0x1680 \<or> (0x2000 \<le> c \<and> c \<le> 0x200A) \<or> c = 0x2028 \<or> c = 0x2029
      \<or> c = 0x202F \<or> c = 0x205F \<or> c = 0x3000)"

definition strip :: "str \<Rightarrow> str" where
  "strip s = rev (dropWhile isspace (rev (dropWhile isspace s)))"

text \<open>\<open>s.split(sep)\<close> for a one-character separator: every occurrence separates.\<close>

fun split_at :: "'a \<Rightarrow> 'a list \<Rightarrow> 'a list \<Rightarrow> 'a list list" where
  "split_at sep cur [] = [rev cur]"
| "split_at sep cur (c # cs) =
     (if c = sep then rev cur # split_at sep [] cs else split_at sep (c # cur) cs)"

definition str_split :: "'a \<Rightarrow> 'a list \<Rightarrow> 'a list list" where
  "str_split sep s = split_at sep [] s"

text \<open>
  \<open>int(s)\<close> in base 10: surrounding whitespace is dropped, one sign is allowed, then
  decimal digits with single underscores between them; anything else is a \<open>ValueError\<close>.
  The whitespace \<open>int\<close> drops is that of \<open>str.isspace\<close> without the four separators
  U+001C to U+001F, which it takes for part of the number and refuses.
  The decimal digits are the ASCII ones, as in MicroPython and CircuitPython; CPython reads
  the decimal digits of other scripts as well and refuses numbers of several thousand
  digits, and no statement below depends on either.  The same digits stand for the class
  \<open>\d\<close> of the regular expression further down.
\<close>

definition int_space :: "nat \<Rightarrow> bool" where
  "int_space c = (isspace c \<and> \<not> (28 \<le> c \<and> c \<le> 31))"

definition isdigit :: "nat \<Rightarrow> bool" where
  "isdigit c = (48 \<le> c \<and> c \<le> 57)"

fun digits_after :: "nat \<Rightarrow> str \<Rightarrow> nat option" where
  "digits_after acc [] = Some acc"
| "digits_after acc [c] = (if isdigit c then Some (10 * acc + (c - 48)) else None)"
| "digits_after acc (c # d # ds) =
     (if isdigit c then digits_after (10 * acc + (c - 48)) (d # ds)
      else if c = 95 \<and> isdigit d then digits_after (10 * acc + (d - 48)) ds
      else None)"

definition py_int :: "str \<Rightarrow> error + int" where
  "py_int s =
     (let t = rev (dropWhile int_space (rev (dropWhile int_space s)));
          neg = (t \<noteq> [] \<and> hd t = 45);
          body = (if t \<noteq> [] \<and> (hd t = 45 \<or> hd t = 43) then tl t else t)
      in case body of
           [] \<Rightarrow> Inl ValueError
         | d # ds \<Rightarrow>
             if isdigit d
             then (case digits_after (d - 48) ds of
                     None \<Rightarrow> Inl ValueError
                   | Some n \<Rightarrow> Inr (if neg then - int n else int n))
             else Inl ValueError)"

subsection \<open>UTF-8\<close>

text \<open>
  \<open>bytes.decode()\<close> and \<open>str.encode()\<close> use UTF-8 with strict error handling: an
  overlong form, a surrogate, a value above \<open>0x10FFFF\<close>, a stray continuation byte or a
  truncated sequence raises.
\<close>

definition cont :: "nat \<Rightarrow> bool" where
  "cont b = (0x80 \<le> b \<and> b < 0xC0)"

fun utf8_decode :: "nat list \<Rightarrow> error + str" where
  "utf8_decode [] = Inr []"
| "utf8_decode (b0 # bs) =
     (if b0 < 0x80 then map_sum id ((#) b0) (utf8_decode bs)
      else if 0xC0 \<le> b0 \<and> b0 < 0xE0 then
        (case bs of
           b1 # r \<Rightarrow>
             (let cp = (b0 - 0xC0) * 64 + (b1 - 0x80)
              in if cont b1 \<and> 0x80 \<le> cp
                 then map_sum id ((#) cp) (utf8_decode r) else Inl UnicodeDecodeError)
         | _ \<Rightarrow> Inl UnicodeDecodeError)
      else if 0xE0 \<le> b0 \<and> b0 < 0xF0 then
        (case bs of
           b1 # b2 # r \<Rightarrow>
             (let cp = (b0 - 0xE0) * 4096 + (b1 - 0x80) * 64 + (b2 - 0x80)
              in if cont b1 \<and> cont b2 \<and> 0x800 \<le> cp \<and> \<not> (0xD800 \<le> cp \<and> cp < 0xE000)
                 then map_sum id ((#) cp) (utf8_decode r) else Inl UnicodeDecodeError)
         | _ \<Rightarrow> Inl UnicodeDecodeError)
      else if 0xF0 \<le> b0 \<and> b0 < 0xF8 then
        (case bs of
           b1 # b2 # b3 # r \<Rightarrow>
             (let cp = (b0 - 0xF0) * 262144 + (b1 - 0x80) * 4096 + (b2 - 0x80) * 64 + (b3 - 0x80)
              in if cont b1 \<and> cont b2 \<and> cont b3 \<and> 0x10000 \<le> cp \<and> cp < 0x110000
                 then map_sum id ((#) cp) (utf8_decode r) else Inl UnicodeDecodeError)
         | _ \<Rightarrow> Inl UnicodeDecodeError)
      else Inl UnicodeDecodeError)"

definition decode :: "bytes \<Rightarrow> error + str" where
  "decode b = utf8_decode b"

definition encode_cp :: "nat \<Rightarrow> nat list option" where
  "encode_cp c =
     (if c < 0x80 then Some [c]
      else if c < 0x800 then Some [0xC0 + c div 64, 0x80 + c mod 64]
      else if 0xD800 \<le> c \<and> c < 0xE000 then None
      else if c < 0x10000 then
        Some [0xE0 + c div 4096, 0x80 + (c div 64) mod 64, 0x80 + c mod 64]
      else if c < 0x110000 then
        Some [0xF0 + c div 262144, 0x80 + (c div 4096) mod 64,
              0x80 + (c div 64) mod 64, 0x80 + c mod 64]
      else None)"

fun encode :: "str \<Rightarrow> error + bytes" where
  "encode [] = Inr []"
| "encode (c # cs) =
     (case encode_cp c of
        None \<Rightarrow> Inl UnicodeEncodeError
      | Some bs \<Rightarrow> map_sum id ((@) bs) (encode cs))"

section \<open>The codec\<close>

definition escape :: "str \<Rightarrow> str" where
  "escape s =
     (let s = str_replace [BSL] [BSL, BSL] s;
          s = str_replace [CR] (BSL # lit ''D'') s;
          s = str_replace [LF] (BSL # lit ''A'') s
      in s)"

definition unescape :: "str \<Rightarrow> str" where
  "unescape s =
     (let s = str_replace (BSL # lit ''A'') [LF] s;
          s = str_replace (BSL # lit ''D'') [CR] s;
          s = str_replace [BSL, BSL] [BSL] s
      in s)"

text \<open>
  For statements about the codec: \<open>escaped lf cr s\<close> is \<open>s\<close> with every backslash doubled
  and with the line feeds (when \<open>lf\<close>) and carriage returns (when \<open>cr\<close>) written as escape
  sequences, character by character; \<open>plain s\<close> says that no backslash of \<open>s\<close> is directly
  followed by \<open>A\<close> or \<open>D\<close>.
\<close>

definition esc :: "bool \<Rightarrow> bool \<Rightarrow> nat \<Rightarrow> str" where
  "esc lf cr c =
     (if c = BSL then [BSL, BSL]
      else if c = CR \<and> cr then [BSL, 68]
      else if c = LF \<and> lf then [BSL, 65]
      else [c])"

definition escaped :: "bool \<Rightarrow> bool \<Rightarrow> str \<Rightarrow> str" where
  "escaped lf cr s = concat (map (esc lf cr) s)"

fun plain :: "str \<Rightarrow> bool" where
  "plain (c # d # cs) = (\<not> (c = BSL \<and> (d = 65 \<or> d = 68)) \<and> plain (d # cs))"
| "plain _ = True"

section \<open>The transport\<close>

text \<open>
  The UART is outside the library.  Its model is a script: \<open>rx u n\<close> is what the
  \<open>n\<close>-th call of \<open>uart.readline()\<close> does, either return bytes (\<open>Bytes []\<close> when the
  read times out with nothing, which the drivers report as \<open>b""\<close> or \<open>None\<close>) or raise
  (\<open>Fault\<close>).  \<open>polls\<close> counts the calls made so far and \<open>tx\<close> logs every payload
  handed to \<open>uart.write\<close>, which is taken not to raise.  \<open>reset_input_buffer\<close> discards
  input that arrived before a command; the script describes the reads after it, so it
  leaves the model's state as it is, as do \<open>time.sleep\<close> and the debug prints.
\<close>

datatype poll = Bytes bytes | Fault

record uart =
  rx :: "nat \<Rightarrow> poll"
  polls :: nat
  tx :: "bytes list"

definition uart_readline :: "uart \<Rightarrow> (error + bytes) \<times> uart" where
  "uart_readline u =
     ((case rx u (polls u) of Bytes p \<Rightarrow> Inr p | Fault \<Rightarrow> Inl TransportError),
      u\<lparr>polls := Suc (polls u)\<rparr>)"

definition uart_write :: "uart \<Rightarrow> bytes \<Rightarrow> uart" where
  "uart_write u b = u\<lparr>tx := tx u @ [b]\<rparr>"

definition script :: "poll list \<Rightarrow> uart" where
  \<comment> \<open>a fresh transport that answers the reads with \<open>ps\<close> in turn and is silent afterwards\<close>
  "script ps = \<lparr>rx = (\<lambda>n. if n < length ps then ps ! n else Bytes []), polls = 0, tx = []\<rparr>"

section \<open>The line reader\<close>

text \<open>
  The \<open>for\<close> loop of \<open>_readline\<close>: \<open>poll_loop n u l\<close> runs the remaining \<open>n\<close> iterations
  with accumulator \<open>l\<close>.  The loop is left as soon as the accumulator ends with a line feed.
\<close>

fun poll_loop :: "nat \<Rightarrow> uart \<Rightarrow> bytes \<Rightarrow> (error + bytes) \<times> uart" where
  "poll_loop 0 u l = (Inr l, u)"
| "poll_loop (Suc n) u l =
     (case uart_readline u of
        (Inl e, u') \<Rightarrow> (Inl e, u')
      | (Inr p, u') \<Rightarrow>
          (let l' = (if p \<noteq> [] then l @ p else l)
           in if endswith l' [LF] then (Inr l', u') else poll_loop n u' l'))"

definition fillers :: str where
  "fillers = [CR, LF, 0x00, 0xFF, 0xFE, 0xFD, 0xFC, 0xFB, 0xFA]"

definition counter :: nat where
  "counter = 300"

definition readline :: "uart \<Rightarrow> (error + str) \<times> uart" where
  "readline u =
     (case poll_loop counter u [] of
        (Inl e, u') \<Rightarrow> (Inl e, u')
      | (Inr l, u') \<Rightarrow>
          (case decode l of
             Inl e \<Rightarrow> (Inl e, u')
           | Inr s \<Rightarrow> (Inr (unescape (str_strip fillers s)), u')))"

text \<open>
  For statements about the loop: \<open>received u k\<close> is what the next \<open>k\<close> reads of the
  transport deliver, in order, a read that raises delivering nothing.
\<close>

definition chunk :: "poll \<Rightarrow> bytes" where
  "chunk q = (case q of Bytes p \<Rightarrow> p | Fault \<Rightarrow> [])"

fun received :: "uart \<Rightarrow> nat \<Rightarrow> bytes" where
  "received u 0 = []"
| "received u (Suc k) = received u k @ chunk (rx u (polls u + k))"

section \<open>Bring-up\<close>

text \<open>
  \<open>attempt\<close> is the body of the loop of \<open>self_test\<close>, the \<open>try\<close> block with its handler:
  its first component tells whether the body returned \<open>True\<close>.  An exception raised in the
  block is caught and the loop goes on.
\<close>

definition attempt :: "uart \<Rightarrow> bool \<times> uart" where
  "attempt u =
     (case readline (uart_write u (lit ''AT'' @ [CR, LF])) of
        (Inl e, u') \<Rightarrow> (False, u')
      | (Inr r, u') \<Rightarrow> (strip r = lit ''OK'', u'))"

fun self_test_loop :: "nat \<Rightarrow> uart \<Rightarrow> bool \<times> uart" where
  "self_test_loop 0 u = (False, u)"
| "self_test_loop (Suc n) u =
     (case attempt u of
        (True, u') \<Rightarrow> (True, u')
      | (False, u') \<Rightarrow> self_test_loop n u')"

definition self_test :: "uart \<Rightarrow> bool \<times> uart" where
  "self_test u = self_test_loop 5 u"

text \<open>
  The constructor, called with a ready-made UART and no pins: the channel's \<open>ready\<close> flag
  is the outcome of the self-test.
\<close>

record expresslink =
  el_uart :: uart
  ready :: bool

definition init :: "uart \<Rightarrow> expresslink" where
  "init u = (case self_test u of (ok, u') \<Rightarrow> \<lparr>el_uart = u', ready = ok\<rparr>)"

section \<open>The command engine\<close>

text \<open>The loop of \<open>cmd\<close> over the additional lines: an empty line ends it early.\<close>

fun additional :: "nat \<Rightarrow> uart \<Rightarrow> str \<Rightarrow> (error + str) \<times> uart" where
  "additional 0 u l = (Inr l, u)"
| "additional (Suc n) u l =
     (case readline u of
        (Inl e, u') \<Rightarrow> (Inl e, u')
      | (Inr al, u') \<Rightarrow>
          if al = [] then (Inr l, u') else additional n u' (l @ [LF] @ al))"

text \<open>
  The end of \<open>cmd\<close>, reached when the status line was parsed: read \<open>additional_lines\<close>
  further lines (none when the count is negative) and return the triple.
\<close>

definition assemble ::
  "bool \<Rightarrow> int \<Rightarrow> int option \<Rightarrow> uart \<Rightarrow> str \<Rightarrow> (error + bool \<times> str \<times> int option) \<times> uart" where
  "assemble success additional_lines error_code u l =
     (case additional (nat additional_lines) u l of
        (Inl e, u') \<Rightarrow> (Inl e, u')
      | (Inr l', u') \<Rightarrow> (Inr (success, strip l', error_code), u'))"

definition cmd :: "uart \<Rightarrow> str \<Rightarrow> (error + bool \<times> str \<times> int option) \<times> uart" where
  "cmd u command =
     (if command = [] then (Inl AssertionError, u)
      else
        case encode (lit ''AT+'' @ escape command @ [CR, LF]) of
          Inl e \<Rightarrow> (Inl e, u)
        | Inr wire \<Rightarrow>
            (case readline (uart_write u wire) of
               (Inl e, u1) \<Rightarrow> (Inl e, u1)
             | (Inr l, u1) \<Rightarrow>
                 if startswith l (lit ''OK'') then
                   (let l = drop 2 l; r = str_find l [SP]
                    in if r > 0 then
                         (case py_int (take (nat r) l) of
                            Inl e \<Rightarrow> (Inl e, u1)
                          | Inr additional_lines \<Rightarrow>
                              assemble True additional_lines None u1 (drop (nat r) l))
                       else assemble True 0 None u1 l)
                 else if startswith l (lit ''ERR'') then
                   (let l = drop 3 l; r = str_find l [SP]
                    in if r > 0 then
                         (case py_int (take (nat r) l) of
                            Inl e \<Rightarrow> (Inl e, u1)
                          | Inr error_code \<Rightarrow>
                              assemble False 0 (Some error_code) u1 (drop (nat r) l))
                       else (Inr (False, l, Some 2), u1))
                 else (Inr (False, l, Some 2), u1)))"

section \<open>Callers of the command engine\<close>

definition connected :: "uart \<Rightarrow> (error + bool) \<times> uart" where
  "connected u =
     (case cmd u (lit ''CONNECT?'') of
        (Inl e, u') \<Rightarrow> (Inl e, u')
      | (Inr (success, line, err), u') \<Rightarrow>
          (case str_split SP line of
             [] \<Rightarrow> (Inl IndexError, u')
           | r0 # _ \<Rightarrow> (Inr (r0 = lit ''1''), u')))"

definition onboarded :: "uart \<Rightarrow> (error + bool) \<times> uart" where
  "onboarded u =
     (case cmd u (lit ''CONNECT?'') of
        (Inl e, u') \<Rightarrow> (Inl e, u')
      | (Inr (success, line, err), u') \<Rightarrow>
          (case str_split SP line of
             _ # r1 # _ \<Rightarrow> (Inr (r1 = lit ''1''), u')
           | _ \<Rightarrow> (Inl IndexError, u')))"

subsection \<open>The configuration dictionary\<close>

definition extract_value :: "uart \<Rightarrow> str \<Rightarrow> (error + str) \<times> uart" where
  "extract_value u query =
     (case cmd u (lit ''CONF? '' @ query) of
        (Inl e, u') \<Rightarrow> (Inl e, u')
      | (Inr (success, line, error_code), u') \<Rightarrow>
          if success then (Inr line, u') else (Inl RuntimeError, u'))"

definition Certificate :: "uart \<Rightarrow> (error + str) \<times> uart" where
  "Certificate u =
     (case extract_value u (lit ''Certificate pem'') of
        (Inl e, u') \<Rightarrow> (Inl e, u')
      | (Inr v, u') \<Rightarrow> (Inr (strip (str_lstrip (lit ''pem'') v)), u'))"

definition RootCA :: "uart \<Rightarrow> (error + str) \<times> uart" where
  "RootCA u =
     (case extract_value u (lit ''RootCA pem'') of
        (Inl e, u') \<Rightarrow> (Inl e, u')
      | (Inr v, u') \<Rightarrow> (Inr (strip (str_lstrip (lit ''pem'') v)), u'))"

definition HOTAcertificate :: "uart \<Rightarrow> (error + str) \<times> uart" where
  "HOTAcertificate u =
     (case extract_value u (lit ''HOTAcertificate pem'') of
        (Inl e, u') \<Rightarrow> (Inl e, u')
      | (Inr v, u') \<Rightarrow> (Inr (strip (str_lstrip (lit ''pem'') v)), u'))"

definition OTAcertificate :: "uart \<Rightarrow> (error + str) \<times> uart" where
  "OTAcertificate u =
     (case extract_value u (lit ''OTAcertificate pem'') of
        (Inl e, u') \<Rightarrow> (Inl e, u')
      | (Inr v, u') \<Rightarrow> (Inr (strip (str_lstrip (lit ''pem'') v)), u'))"

subsection \<open>Events\<close>

text \<open>
  \<open>re.match\<close> of the pattern \<open>(\d+) (\d+) (\S+)( \S+)?\<close> at the start of the line.  A
  digit is never a space and the last group is optional, so the greedy match is the only
  one tried: each run is taken as long as it goes.
\<close>

definition re_event :: "str \<Rightarrow> (str \<times> str \<times> str \<times> str option) option" where
  "re_event line =
     (let g1 = takeWhile isdigit line; r1 = dropWhile isdigit line
      in if g1 = [] \<or> r1 = [] \<or> hd r1 \<noteq> SP then None
         else
           (let g2 = takeWhile isdigit (tl r1); r2 = dropWhile isdigit (tl r1)
            in if g2 = [] \<or> r2 = [] \<or> hd r2 \<noteq> SP then None
               else
                 (let g3 = takeWhile (\<lambda>c. \<not> isspace c) (tl r2);
                      r3 = dropWhile (\<lambda>c. \<not> isspace c) (tl r2);
                      g4 = (if r3 \<noteq> [] \<and> hd r3 = SP
                            then takeWhile (\<lambda>c. \<not> isspace c) (tl r3) else [])
                  in if g3 = [] then None
                     else Some (g1, g2, g3, if g4 = [] then None else Some (SP # g4)))))"

text \<open>
  \<open>event_signal\<close> is \<open>None\<close> when no event pin is wired and otherwise \<open>Some h\<close> with
  \<open>h\<close> telling whether the pin reads high.
\<close>

type_synonym event = "int option \<times> int option \<times> str option \<times> str option"

definition get_event :: "bool option \<Rightarrow> uart \<Rightarrow> (error + event) \<times> uart" where
  "get_event event_signal u =
     (if event_signal = Some False then (Inr (None, None, None, None), u)
      else
        case cmd u (lit ''EVENT?'') of
          (Inl e, u') \<Rightarrow> (Inl e, u')
        | (Inr (success, line, _), u') \<Rightarrow>
            if (success \<and> line = []) \<or> \<not> success then (Inr (None, None, None, None), u')
            else
              (case re_event line of
                 None \<Rightarrow> (Inl AttributeError, u')
               | Some (event_id, parameter, mnemonic, detail) \<Rightarrow>
                   (case py_int event_id of
                      Inl e \<Rightarrow> (Inl e, u')
                    | Inr i \<Rightarrow>
                        (case py_int parameter of
                           Inl e \<Rightarrow> (Inl e, u')
                         | Inr p \<Rightarrow> (Inr (Some i, Some p, Some mnemonic, detail), u')))))"

section \<open>Running the model\<close>

lemmas str_defs = lit_def startswith_def endswith_def str_lstrip_def str_rstrip_def str_strip_def
  strip_def isspace_def int_space_def isdigit_def py_int_def str_split_def fillers_def

lemmas codec_defs = escape_def unescape_def decode_def encode_cp_def cont_def

subsection \<open>A line that arrives with the first read\<close>

lemma poll_loop_first:
  assumes "rx u (polls u) = Bytes p" and "endswith p [LF]"
  shows "poll_loop (Suc n) u [] = (Inr p, u\<lparr>polls := Suc (polls u)\<rparr>)"
  using assms by (auto simp: uart_readline_def endswith_def)

lemma readline_first:
  assumes "rx u (polls u) = Bytes p" and "endswith p [LF]" and "decode p = Inr s"
  shows "readline u = (Inr (unescape (str_strip fillers s)), u\<lparr>polls := Suc (polls u)\<rparr>)"
proof -
  have "poll_loop (Suc 299) u [] = (Inr p, u\<lparr>polls := Suc (polls u)\<rparr>)"
    by (rule poll_loop_first [OF assms(1,2)])
  moreover have "counter = Suc 299" by (simp add: counter_def)
  ultimately have "poll_loop counter u [] = (Inr p, u\<lparr>polls := Suc (polls u)\<rparr>)"
    by (simp only:)
  then show ?thesis by (simp add: readline_def assms(3))
qed

lemma readline_reply:
  assumes "rx u (polls u) = Bytes p" and "endswith p [LF]" and "decode p = Inr s"
    and "unescape (str_strip fillers s) = l"
  shows "readline (uart_write u wire) = (Inr l, u\<lparr>polls := Suc (polls u), tx := tx u @ [wire]\<rparr>)"
  using readline_first [of "uart_write u wire" p s] assms by (simp add: uart_write_def)

lemma cmd_ok_plain:
  assumes "command \<noteq> []"
    and "encode (lit ''AT+'' @ escape command @ [CR, LF]) = Inr wire"
    and "readline (uart_write u wire) = (Inr l, u1)"
    and "startswith l (lit ''OK'')" and "str_find (drop 2 l) [SP] \<le> 0"
  shows "cmd u command = assemble True 0 None u1 (drop 2 l)"
  using assms by (simp add: cmd_def Let_def)

lemma cmd_ok_count:
  assumes "command \<noteq> []"
    and "encode (lit ''AT+'' @ escape command @ [CR, LF]) = Inr wire"
    and "readline (uart_write u wire) = (Inr l, u1)"
    and "startswith l (lit ''OK'')" and "str_find (drop 2 l) [SP] = r" and "0 < r"
    and "py_int (take (nat r) (drop 2 l)) = Inr n"
  shows "cmd u command = assemble True n None u1 (drop (nat r) (drop 2 l))"
  using assms by (simp add: cmd_def Let_def)

lemma cmd_ok_bad_count:
  assumes "command \<noteq> []"
    and "encode (lit ''AT+'' @ escape command @ [CR, LF]) = Inr wire"
    and "readline (uart_write u wire) = (Inr l, u1)"
    and "startswith l (lit ''OK'')" and "str_find (drop 2 l) [SP] = r" and "0 < r"
    and "py_int (take (nat r) (drop 2 l)) = Inl e"
  shows "cmd u command = (Inl e, u1)"
  using assms by (simp add: cmd_def Let_def)

lemma cmd_err_code:
  assumes "command \<noteq> []"
    and "encode (lit ''AT+'' @ escape command @ [CR, LF]) = Inr wire"
    and "readline (uart_write u wire) = (Inr l, u1)"
    and "\<not> startswith l (lit ''OK'')" and "startswith l (lit ''ERR'')"
    and "str_find (drop 3 l) [SP] = r" and "0 < r"
    and "py_int (take (nat r) (drop 3 l)) = Inr n"
  shows "cmd u command = assemble False 0 (Some n) u1 (drop (nat r) (drop 3 l))"
  using assms by (simp add: cmd_def Let_def)

lemma cmd_err_bad_code:
  assumes "command \<noteq> []"
    and "encode (lit ''AT+'' @ escape command @ [CR, LF]) = Inr wire"
    and "readline (uart_write u wire) = (Inr l, u1)"
    and "\<not> startswith l (lit ''OK'')" and "startswith l (lit ''ERR'')"
    and "str_find (drop 3 l) [SP] = r" and "0 < r"
    and "py_int (take (nat r) (drop 3 l)) = Inl e"
  shows "cmd u command = (Inl e, u1)"
  using assms by (simp add: cmd_def Let_def)

lemma cmd_err_malformed:
  assumes "command \<noteq> []"
    and "encode (lit ''AT+'' @ escape command @ [CR, LF]) = Inr wire"
    and "readline (uart_write u wire) = (Inr l, u1)"
    and "\<not> startswith l (lit ''OK'')" and "startswith l (lit ''ERR'')"
    and "str_find (drop 3 l) [SP] \<le> 0"
  shows "cmd u command = (Inr (False, drop 3 l, Some 2), u1)"
  using assms by (simp add: cmd_def Let_def)

lemma cmd_unexpected:
  assumes "command \<noteq> []"
    and "encode (lit ''AT+'' @ escape command @ [CR, LF]) = Inr wire"
    and "readline (uart_write u wire) = (Inr l, u1)"
    and "\<not> startswith l (lit ''OK'')" and "\<not> startswith l (lit ''ERR'')"
  shows "cmd u command = (Inr (False, l, Some 2), u1)"
  using assms by (simp add: cmd_def Let_def)

lemma assemble_zero: "assemble success 0 error_code u l = (Inr (success, strip l, error_code), u)"
  by (simp add: assemble_def)

section \<open>The round trip of the codec\<close>

lemma replace_single:
  "str_replace [a] new s = concat (map (\<lambda>c. if c = a then new else [c]) s)"
  by (induction s) (simp_all add: startswith_def)

lemma escaped_Cons: "escaped lf cr (c # s) = esc lf cr c @ escaped lf cr s"
  by (simp add: escaped_def)

lemma escape_escaped: "escape s = escaped True True s"
  by (induction s) (auto simp add: escape_def replace_single escaped_def esc_def lit_def
      simp del: str_replace.simps)

lemma replace_skip:
  "c \<noteq> a \<Longrightarrow> str_replace (a # p) new (c # rest) = c # str_replace (a # p) new rest"
  by (simp add: startswith_def)

lemma replace_hit2:
  "str_replace [a, b] new (a # b # rest) = new @ str_replace [a, b] new rest"
  by (simp add: startswith_def)

lemma replace_miss2:
  "d \<noteq> b \<Longrightarrow> str_replace [a, b] new (a # d # rest) = a # str_replace [a, b] new (d # rest)"
  by (simp add: startswith_def)

lemma replace_last: "str_replace [a, b] new [a] = [a]"
  by (simp add: startswith_def)

lemma replace_after_bsl:
  assumes "x \<noteq> BSL" and "cs = [] \<or> hd cs \<noteq> x"
  shows "str_replace [BSL, x] new (BSL # escaped lf cr cs)
    = BSL # str_replace [BSL, x] new (escaped lf cr cs)"
proof (cases cs)
  case Nil
  then show ?thesis by (simp add: escaped_def startswith_def)
next
  case (Cons d ds)
  with assms have "d \<noteq> x" by simp
  with assms(1) have "\<exists>e es. escaped lf cr cs = e # es \<and> e \<noteq> x"
    unfolding Cons escaped_Cons esc_def by auto
  then obtain e es where "escaped lf cr cs = e # es" "e \<noteq> x" by blast
  then show ?thesis by (simp add: replace_miss2 del: str_replace.simps)
qed

lemma plain_tl: "plain (c # cs) \<Longrightarrow> plain cs"
  by (cases cs) simp_all

lemma plain_hd: "plain (BSL # cs) \<Longrightarrow> cs = [] \<or> (hd cs \<noteq> 65 \<and> hd cs \<noteq> 68)"
  by (cases cs) simp_all

lemma unescape_LF:
  assumes "plain s"
  shows "str_replace [BSL, 65] [LF] (escaped True cr s) = escaped False cr s"
  using assms
proof (induction s)
  case Nil
  then show ?case by (simp add: escaped_def)
next
  case (Cons c s)
  from Cons have IH: "str_replace [BSL, 65] [LF] (escaped True cr s) = escaped False cr s"
    by (auto dest: plain_tl)
  consider (bsl) "c = BSL" | (lf) "c = LF" | (cr) "c = CR" "cr"
    | (other) "c \<noteq> BSL" "c \<noteq> LF" "\<not> (c = CR \<and> cr)"
    by blast
  then show ?case
  proof cases
    case bsl
    with Cons.prems have "s = [] \<or> hd s \<noteq> 65" by (auto dest: plain_hd)
    from replace_after_bsl [OF _ this, of "[LF]" True cr] bsl IH show ?thesis
      by (simp add: escaped_Cons esc_def replace_miss2 del: str_replace.simps)
  next
    case lf
    with IH show ?thesis by (simp add: escaped_Cons esc_def replace_hit2 del: str_replace.simps)
  next
    case cr
    with IH show ?thesis by (simp add: escaped_Cons esc_def replace_miss2 replace_skip del: str_replace.simps)
  next
    case other
    with IH show ?thesis
      by (auto simp add: escaped_Cons esc_def replace_skip simp del: str_replace.simps)
  qed
qed

lemma unescape_CR:
  assumes "plain s"
  shows "str_replace [BSL, 68] [CR] (escaped False True s) = escaped False False s"
  using assms
proof (induction s)
  case Nil
  then show ?case by (simp add: escaped_def)
next
  case (Cons c s)
  from Cons have IH: "str_replace [BSL, 68] [CR] (escaped False True s) = escaped False False s"
    by (auto dest: plain_tl)
  consider (bsl) "c = BSL" | (cr) "c = CR" | (other) "c \<noteq> BSL" "c \<noteq> CR"
    by blast
  then show ?case
  proof cases
    case bsl
    with Cons.prems have "s = [] \<or> hd s \<noteq> 68" by (auto dest: plain_hd)
    from replace_after_bsl [OF _ this, of "[CR]" False True] bsl IH show ?thesis
      by (simp add: escaped_Cons esc_def replace_miss2 del: str_replace.simps)
  next
    case cr
    with IH show ?thesis by (simp add: escaped_Cons esc_def replace_hit2 del: str_replace.simps)
  next
    case other
    with IH show ?thesis by (simp add: escaped_Cons esc_def replace_skip del: str_replace.simps)
  qed
qed

lemma unescape_BSL: "str_replace [BSL, BSL] [BSL] (escaped False False s) = s"
  by (induction s) (simp_all add: escaped_def esc_def startswith_def)

text \<open>
  The round trip holds for every string in which no backslash is directly followed by
  \<open>A\<close> or \<open>D\<close>.
\<close>

lemma unescape_escape_plain:
  assumes "plain s"
  shows "unescape (escape s) = s"
  using assms
  by (simp add: unescape_def escape_escaped lit_def unescape_LF unescape_CR unescape_BSL
    del: str_replace.simps)

text \<open>
  C1: \<open>unescape (escape s) = s\<close> is claimed for every string.  At the two-character
  string backslash, \<open>A\<close> the code gives something else: \<open>escape\<close> doubles the backslash,
  and the first replacement of \<open>unescape\<close> takes the second backslash and the \<open>A\<close> for an
  escaped line feed, before the doubled backslash is looked at.
\<close>

theorem unescape_escape_backslash_A:
  "escape (BSL # lit ''A'') = [BSL, BSL] @ lit ''A''
   \<and> unescape (escape (BSL # lit ''A'')) = [BSL, LF]
   \<and> unescape (escape (BSL # lit ''A'')) \<noteq> BSL # lit ''A''"
  by (simp add: str_defs codec_defs)

section \<open>The status line\<close>

text \<open>
  C2: a line that starts with \<open>ERR\<close> and has no decimal code is claimed to give the
  result with code 2 and never an exception.  For the line \<open>ERRx y\<close> the code finds the
  space at index 1, calls \<open>int\<close> on \<open>x\<close>, and the \<open>ValueError\<close> leaves \<open>cmd\<close>.
\<close>

theorem cmd_ERRx_raises:
  "fst (cmd (script [Bytes (lit ''ERRx y'' @ [CR, LF])]) (lit ''CONNECT?'')) = Inl ValueError"
proof -
  let ?u = "script [Bytes (lit ''ERRx y'' @ [CR, LF])]"
  let ?l = "lit ''ERRx y''"
  let ?w = "lit ''AT+CONNECT?'' @ [CR, LF]"
  have ne: "lit ''CONNECT?'' \<noteq> []" by (simp add: lit_def)
  have enc: "encode (lit ''AT+'' @ escape (lit ''CONNECT?'') @ [CR, LF]) = Inr ?w"
    by (simp add: str_defs codec_defs)
  have rl: "readline (uart_write ?u ?w)
      = (Inr ?l, ?u\<lparr>polls := Suc (polls ?u), tx := tx ?u @ [?w]\<rparr>)"
  proof (rule readline_reply)
    show "rx ?u (polls ?u) = Bytes (lit ''ERRx y'' @ [CR, LF])" by (simp add: script_def)
    show "endswith (lit ''ERRx y'' @ [CR, LF]) [LF]" by (simp add: str_defs)
    show "decode (lit ''ERRx y'' @ [CR, LF]) = Inr (lit ''ERRx y'' @ [CR, LF])"
      by (simp add: str_defs codec_defs)
    show "unescape (str_strip fillers (lit ''ERRx y'' @ [CR, LF])) = ?l"
      by (simp add: str_defs codec_defs)
  qed
  have "cmd ?u (lit ''CONNECT?'') =
      (Inl ValueError, ?u\<lparr>polls := Suc (polls ?u), tx := tx ?u @ [?w]\<rparr>)"
  proof (rule cmd_err_bad_code [OF ne enc rl])
    show "\<not> startswith ?l (lit ''OK'')" by (simp add: str_defs)
    show "startswith ?l (lit ''ERR'')" by (simp add: str_defs)
    show "str_find (drop 3 ?l) [SP] = 1" by (simp add: str_defs)
    show "(0::int) < 1" by simp
    show "py_int (take (nat 1) (drop 3 ?l)) = Inl ValueError" by (simp add: str_defs)
  qed
  then show ?thesis by simp
qed

section \<open>The connectivity query\<close>

lemma cmd_ok_plain_first:
  assumes "command \<noteq> []"
    and "encode (lit ''AT+'' @ escape command @ [CR, LF]) = Inr wire"
    and "rx u (polls u) = Bytes p" and "endswith p [LF]" and "decode p = Inr s"
    and "unescape (str_strip fillers s) = l"
    and "startswith l (lit ''OK'')" and "str_find (drop 2 l) [SP] \<le> 0"
  shows "cmd u command =
    (Inr (True, strip (drop 2 l), None), u\<lparr>polls := Suc (polls u), tx := tx u @ [wire]\<rparr>)"
  using cmd_ok_plain [OF assms(1,2) readline_reply [OF assms(3-6)] assms(7,8)]
  by (simp add: assemble_zero)

lemma connect_query_1_0:
  assumes "rx u (polls u) = Bytes (lit ''OK 1 0 foo bar'' @ [CR, LF])"
  shows "cmd u (lit ''CONNECT?'') =
    (Inr (True, lit ''1 0 foo bar'', None),
     u\<lparr>polls := Suc (polls u), tx := tx u @ [lit ''AT+CONNECT?'' @ [CR, LF]]\<rparr>)"
proof -
  have "cmd u (lit ''CONNECT?'') =
    (Inr (True, strip (drop 2 (lit ''OK 1 0 foo bar'')), None),
     u\<lparr>polls := Suc (polls u), tx := tx u @ [lit ''AT+CONNECT?'' @ [CR, LF]]\<rparr>)"
  proof (rule cmd_ok_plain_first [OF _ _ assms(1)])
    show "lit ''CONNECT?'' \<noteq> []" by (simp add: lit_def)
    show "encode (lit ''AT+'' @ escape (lit ''CONNECT?'') @ [CR, LF]) = Inr (lit ''AT+CONNECT?'' @ [CR, LF])"
      by (simp add: str_defs codec_defs)
    show "endswith (lit ''OK 1 0 foo bar'' @ [CR, LF]) [LF]"
      by (simp add: str_defs)
    show "decode (lit ''OK 1 0 foo bar'' @ [CR, LF]) = Inr (lit ''OK 1 0 foo bar'' @ [CR, LF])"
      by (simp add: str_defs codec_defs)
    show "unescape (str_strip fillers (lit ''OK 1 0 foo bar'' @ [CR, LF])) = lit ''OK 1 0 foo bar''"
      by (simp add: str_defs codec_defs)
    show "startswith (lit ''OK 1 0 foo bar'') (lit ''OK'')"
      by (simp add: str_defs)
    show "str_find (drop 2 (lit ''OK 1 0 foo bar'')) [SP] \<le> 0"
      by (simp add: str_defs)
  qed
  moreover have "strip (drop 2 (lit ''OK 1 0 foo bar'')) = lit ''1 0 foo bar''"
    by (simp add: str_defs)
  ultimately show ?thesis by simp
qed

lemma connect_query_1_1:
  assumes "rx u (polls u) = Bytes (lit ''OK 1 1 foo bar'' @ [CR, LF])"
  shows "cmd u (lit ''CONNECT?'') =
    (Inr (True, lit ''1 1 foo bar'', None),
     u\<lparr>polls := Suc (polls u), tx := tx u @ [lit ''AT+CONNECT?'' @ [CR, LF]]\<rparr>)"
proof -
  have "cmd u (lit ''CONNECT?'') =
    (Inr (True, strip (drop 2 (lit ''OK 1 1 foo bar'')), None),
     u\<lparr>polls := Suc (polls u), tx := tx u @ [lit ''AT+CONNECT?'' @ [CR, LF]]\<rparr>)"
  proof (rule cmd_ok_plain_first [OF _ _ assms(1)])
    show "lit ''CONNECT?'' \<noteq> []" by (simp add: lit_def)
    show "encode (lit ''AT+'' @ escape (lit ''CONNECT?'') @ [CR, LF]) = Inr (lit ''AT+CONNECT?'' @ [CR, LF])"
      by (simp add: str_defs codec_defs)
    show "endswith (lit ''OK 1 1 foo bar'' @ [CR, LF]) [LF]"
      by (simp add: str_defs)
    show "decode (lit ''OK 1 1 foo bar'' @ [CR, LF]) = Inr (lit ''OK 1 1 foo bar'' @ [CR, LF])"
      by (simp add: str_defs codec_defs)
    show "unescape (str_strip fillers (lit ''OK 1 1 foo bar'' @ [CR, LF])) = lit ''OK 1 1 foo bar''"
      by (simp add: str_defs codec_defs)
    show "startswith (lit ''OK 1 1 foo bar'') (lit ''OK'')"
      by (simp add: str_defs)
    show "str_find (drop 2 (lit ''OK 1 1 foo bar'')) [SP] \<le> 0"
      by (simp add: str_defs)
  qed
  moreover have "strip (drop 2 (lit ''OK 1 1 foo bar'')) = lit ''1 1 foo bar''"
    by (simp add: str_defs)
  ultimately show ?thesis by simp
qed

text \<open>
  C3, as stated: with the response \<open>OK 1 0 foo bar\<close> the \<open>connected\<close> property is claimed to
  be false.  The payload is \<open>1 0 foo bar\<close>, its first field is \<open>1\<close>, and the property is
  true.
\<close>

theorem connected_1_0_counterexample:
  "fst (connected (script [Bytes (lit ''OK 1 0 foo bar'' @ [CR, LF])])) \<noteq> Inr False"
proof -
  let ?u = "script [Bytes (lit ''OK 1 0 foo bar'' @ [CR, LF])]"
  have "rx ?u (polls ?u) = Bytes (lit ''OK 1 0 foo bar'' @ [CR, LF])"
    by (simp add: script_def)
  from connect_query_1_0 [OF this] show ?thesis
    by (simp add: connected_def str_split_def lit_def)
qed

text \<open>
  C3, amended: with the response \<open>OK 1 0 foo bar\<close> the \<open>connected\<close> property is true and
  \<open>onboarded\<close> is false; with \<open>OK 1 1 foo bar\<close> both are true.
\<close>

theorem connected_onboarded_examples:
  "fst (connected (script [Bytes (lit ''OK 1 0 foo bar'' @ [CR, LF])])) = Inr True
   \<and> fst (onboarded (script [Bytes (lit ''OK 1 0 foo bar'' @ [CR, LF])])) = Inr False
   \<and> fst (connected (script [Bytes (lit ''OK 1 1 foo bar'' @ [CR, LF])])) = Inr True
   \<and> fst (onboarded (script [Bytes (lit ''OK 1 1 foo bar'' @ [CR, LF])])) = Inr True"
proof -
  let ?u0 = "script [Bytes (lit ''OK 1 0 foo bar'' @ [CR, LF])]"
  let ?u1 = "script [Bytes (lit ''OK 1 1 foo bar'' @ [CR, LF])]"
  have "rx ?u0 (polls ?u0) = Bytes (lit ''OK 1 0 foo bar'' @ [CR, LF])"
    by (simp add: script_def)
  note c0 = connect_query_1_0 [OF this]
  have "rx ?u1 (polls ?u1) = Bytes (lit ''OK 1 1 foo bar'' @ [CR, LF])"
    by (simp add: script_def)
  note c1 = connect_query_1_1 [OF this]
  from c0 have a: "fst (connected ?u0) = Inr True" "fst (onboarded ?u0) = Inr False"
    by (simp_all add: connected_def onboarded_def str_split_def lit_def)
  from c1 have b: "fst (connected ?u1) = Inr True" "fst (onboarded ?u1) = Inr True"
    by (simp_all add: connected_def onboarded_def str_split_def lit_def)
  from a b show ?thesis by simp
qed

section \<open>Responses of several lines\<close>

lemma additional_step:
  assumes "readline u = (Inr al, u')" and "al \<noteq> []"
  shows "additional (Suc n) u l = additional n u' (l @ [LF] @ al)"
  using assms by simp

text \<open>
  C5: when the first line is \<open>OK2 first\<close> and the next two reads give \<open>second\<close> and
  \<open>third\<close>, \<open>cmd\<close> returns success with the payload \<open>first\<close>, \<open>second\<close>, \<open>third\<close> joined
  by single line feeds and no error code.  It has made three reads, one per line, and one
  write.
\<close>

theorem cmd_multi_line:
  assumes "command \<noteq> []"
    and "encode (lit ''AT+'' @ escape command @ [CR, LF]) = Inr wire"
    and "rx u (polls u) = Bytes (lit ''OK2 first'' @ [CR, LF])"
    and "rx u (polls u + 1) = Bytes (lit ''second'' @ [CR, LF])"
    and "rx u (polls u + 2) = Bytes (lit ''third'' @ [CR, LF])"
  shows "cmd u command =
    (Inr (True, lit ''first'' @ [LF] @ lit ''second'' @ [LF] @ lit ''third'', None),
     u\<lparr>polls := polls u + 3, tx := tx u @ [wire]\<rparr>)"
proof -
  let ?u1 = "u\<lparr>polls := Suc (polls u), tx := tx u @ [wire]\<rparr>"
  let ?u2 = "?u1\<lparr>polls := Suc (polls ?u1)\<rparr>"
  let ?u3 = "?u2\<lparr>polls := Suc (polls ?u2)\<rparr>"
  have rl1: "readline (uart_write u wire) = (Inr (lit ''OK2 first''), ?u1)"
  proof (rule readline_reply [OF assms(3)])
    show "endswith (lit ''OK2 first'' @ [CR, LF]) [LF]" by (simp add: str_defs)
    show "decode (lit ''OK2 first'' @ [CR, LF]) = Inr (lit ''OK2 first'' @ [CR, LF])"
      by (simp add: str_defs codec_defs)
    show "unescape (str_strip fillers (lit ''OK2 first'' @ [CR, LF])) = lit ''OK2 first''"
      by (simp add: str_defs codec_defs)
  qed
  have rl2: "readline ?u1 = (Inr (lit ''second''), ?u2)"
  proof -
    have "readline ?u1 = (Inr (unescape (str_strip fillers (lit ''second'' @ [CR, LF]))), ?u2)"
    proof (rule readline_first)
      show "rx ?u1 (polls ?u1) = Bytes (lit ''second'' @ [CR, LF])" using assms(4) by simp
      show "endswith (lit ''second'' @ [CR, LF]) [LF]" by (simp add: str_defs)
      show "decode (lit ''second'' @ [CR, LF]) = Inr (lit ''second'' @ [CR, LF])"
        by (simp add: str_defs codec_defs)
    qed
    moreover have "unescape (str_strip fillers (lit ''second'' @ [CR, LF])) = lit ''second''"
      by (simp add: str_defs codec_defs)
    ultimately show ?thesis by simp
  qed
  have rl3: "readline ?u2 = (Inr (lit ''third''), ?u3)"
  proof -
    have "readline ?u2 = (Inr (unescape (str_strip fillers (lit ''third'' @ [CR, LF]))), ?u3)"
    proof (rule readline_first)
      show "rx ?u2 (polls ?u2) = Bytes (lit ''third'' @ [CR, LF])" using assms(5) by simp
      show "endswith (lit ''third'' @ [CR, LF]) [LF]" by (simp add: str_defs)
      show "decode (lit ''third'' @ [CR, LF]) = Inr (lit ''third'' @ [CR, LF])"
        by (simp add: str_defs codec_defs)
    qed
    moreover have "unescape (str_strip fillers (lit ''third'' @ [CR, LF])) = lit ''third''"
      by (simp add: str_defs codec_defs)
    ultimately show ?thesis by simp
  qed
  have "cmd u command = assemble True 2 None ?u1 (drop (nat 1) (drop 2 (lit ''OK2 first'')))"
  proof (rule cmd_ok_count [OF assms(1,2) rl1])
    show "startswith (lit ''OK2 first'') (lit ''OK'')" by (simp add: str_defs)
    show "str_find (drop 2 (lit ''OK2 first'')) [SP] = 1" by (simp add: str_defs)
    show "(0::int) < 1" by simp
    show "py_int (take (nat 1) (drop 2 (lit ''OK2 first''))) = Inr 2" by (simp add: str_defs)
  qed
  moreover have "drop (nat 1) (drop 2 (lit ''OK2 first'')) = lit '' first''"
    by (simp add: lit_def)
  ultimately have c: "cmd u command = assemble True 2 None ?u1 (lit '' first'')"
    by (simp only:)
  have n2: "nat 2 = Suc (Suc 0)" by simp
  have add: "additional (Suc (Suc 0)) ?u1 (lit '' first'')
      = (Inr (lit '' first'' @ [LF] @ lit ''second'' @ [LF] @ lit ''third''), ?u3)"
  proof -
    have "additional (Suc (Suc 0)) ?u1 (lit '' first'')
        = additional (Suc 0) ?u2 (lit '' first'' @ [LF] @ lit ''second'')"
      by (rule additional_step [OF rl2]) (simp add: lit_def)
    also have "\<dots> = additional 0 ?u3 ((lit '' first'' @ [LF] @ lit ''second'') @ [LF] @ lit ''third'')"
      by (rule additional_step [OF rl3]) (simp add: lit_def)
    finally show ?thesis by simp
  qed
  have strp: "strip (lit '' first'' @ [LF] @ lit ''second'' @ [LF] @ lit ''third'')
      = lit ''first'' @ [LF] @ lit ''second'' @ [LF] @ lit ''third''"
    by (simp add: str_defs)
  have "assemble True 2 None ?u1 (lit '' first'')
      = (Inr (True, lit ''first'' @ [LF] @ lit ''second'' @ [LF] @ lit ''third'', None), ?u3)"
    by (simp only: assemble_def n2 add strp prod.case sum.case)
  with c show ?thesis by simp
qed

theorem cmd_multi_line_witness:
  "lit ''GET'' \<noteq> [] \<and>
   cmd (script [Bytes (lit ''OK2 first'' @ [CR, LF]), Bytes (lit ''second'' @ [CR, LF]),
                Bytes (lit ''third'' @ [CR, LF])]) (lit ''GET'')
   = (Inr (True, lit ''first'' @ [LF] @ lit ''second'' @ [LF] @ lit ''third'', None),
      \<lparr>rx = rx (script [Bytes (lit ''OK2 first'' @ [CR, LF]), Bytes (lit ''second'' @ [CR, LF]),
                Bytes (lit ''third'' @ [CR, LF])]), polls = 3, tx = [lit ''AT+GET'' @ [CR, LF]]\<rparr>)"
proof -
  let ?u = "script [Bytes (lit ''OK2 first'' @ [CR, LF]), Bytes (lit ''second'' @ [CR, LF]),
                Bytes (lit ''third'' @ [CR, LF])]"
  have ne: "lit ''GET'' \<noteq> []" by (simp add: lit_def)
  have enc: "encode (lit ''AT+'' @ escape (lit ''GET'') @ [CR, LF]) = Inr (lit ''AT+GET'' @ [CR, LF])"
    by (simp add: str_defs codec_defs)
  have r0: "rx ?u (polls ?u) = Bytes (lit ''OK2 first'' @ [CR, LF])" by (simp add: script_def)
  have r1: "rx ?u (polls ?u + 1) = Bytes (lit ''second'' @ [CR, LF])" by (simp add: script_def)
  have r2: "rx ?u (polls ?u + 2) = Bytes (lit ''third'' @ [CR, LF])" by (simp add: script_def)
  have "?u\<lparr>polls := polls ?u + 3, tx := tx ?u @ [lit ''AT+GET'' @ [CR, LF]]\<rparr>
     = \<lparr>rx = rx ?u, polls = 3, tx = [lit ''AT+GET'' @ [CR, LF]]\<rparr>"
    by (simp add: script_def)
  with cmd_multi_line [OF ne enc r0 r1 r2] ne show ?thesis by simp
qed

section \<open>The result triple\<close>

lemma assemble_result:
  assumes "assemble s n e u l = (Inr (s', p, e'), u')"
  shows "s' = s \<and> e' = e"
  using assms by (auto simp: assemble_def split: prod.splits sum.splits)

lemma cmd_returns:
  assumes "cmd u command = (Inr (success, payload, error_code), u')"
  obtains wire l u1 where "command \<noteq> []"
    and "encode (lit ''AT+'' @ escape command @ [CR, LF]) = Inr wire"
    and "readline (uart_write u wire) = (Inr l, u1)"
  using assms by (auto simp: cmd_def split: if_splits sum.splits prod.splits)

text \<open>
  C4: in every triple that \<open>cmd\<close> returns, the error code is present exactly when
  \<open>success\<close> is false; the code of an error result is 2 or the number that \<open>int\<close> read
  from the \<open>ERR\<close> line; and a line with neither prefix gives failure, code 2 and the line
  itself as payload.
\<close>

theorem cmd_error_code_iff:
  "(cmd u command = (Inr (success, payload, error_code), u') \<longrightarrow>
      (error_code \<noteq> None) = (\<not> success)
      \<and> (\<not> success \<longrightarrow> error_code = Some 2
            \<or> (\<exists>wire l u1 n. encode (lit ''AT+'' @ escape command @ [CR, LF]) = Inr wire
                  \<and> readline (uart_write u wire) = (Inr l, u1)
                  \<and> startswith l (lit ''ERR'')
                  \<and> py_int (take (nat (str_find (drop 3 l) [SP])) (drop 3 l)) = Inr n
                  \<and> error_code = Some n)))
   \<and> (command \<noteq> [] \<and> encode (lit ''AT+'' @ escape command @ [CR, LF]) = Inr w
        \<and> readline (uart_write u w) = (Inr line, u2)
        \<and> \<not> startswith line (lit ''OK'') \<and> \<not> startswith line (lit ''ERR'')
      \<longrightarrow> cmd u command = (Inr (False, line, Some 2), u2))"
proof (intro conjI impI)
  assume c: "cmd u command = (Inr (success, payload, error_code), u')"
  from c obtain wire l u1 where ne: "command \<noteq> []"
    and enc: "encode (lit ''AT+'' @ escape command @ [CR, LF]) = Inr wire"
    and rl: "readline (uart_write u wire) = (Inr l, u1)"
    by (rule cmd_returns)
  let ?r3 = "str_find (drop 3 l) [SP]"
  let ?r2 = "str_find (drop 2 l) [SP]"
  consider (ok_plain) "startswith l (lit ''OK'')" "?r2 \<le> 0"
    | (ok_count) "startswith l (lit ''OK'')" "0 < ?r2"
    | (err_code) "\<not> startswith l (lit ''OK'')" "startswith l (lit ''ERR'')" "0 < ?r3"
    | (err_mal) "\<not> startswith l (lit ''OK'')" "startswith l (lit ''ERR'')" "?r3 \<le> 0"
    | (unexpected) "\<not> startswith l (lit ''OK'')" "\<not> startswith l (lit ''ERR'')"
    by fastforce
  then have "(error_code \<noteq> None) = (\<not> success) \<and> (\<not> success \<longrightarrow> error_code = Some 2
            \<or> (\<exists>n. startswith l (lit ''ERR'')
                  \<and> py_int (take (nat ?r3) (drop 3 l)) = Inr n \<and> error_code = Some n))"
  proof cases
    case ok_plain
    from cmd_ok_plain [OF ne enc rl ok_plain] c
    have "assemble True 0 None u1 (drop 2 l) = (Inr (success, payload, error_code), u')"
      by simp
    from assemble_result [OF this] show ?thesis by simp
  next
    case ok_count
    show ?thesis
    proof (cases "py_int (take (nat ?r2) (drop 2 l))")
      case (Inl e)
      from cmd_ok_bad_count [OF ne enc rl ok_count(1) refl ok_count(2) Inl] c show ?thesis by simp
    next
      case (Inr n)
      from cmd_ok_count [OF ne enc rl ok_count(1) refl ok_count(2) Inr] c
      have "assemble True n None u1 (drop (nat ?r2) (drop 2 l))
          = (Inr (success, payload, error_code), u')"
        by simp
      from assemble_result [OF this] show ?thesis by simp
    qed
  next
    case err_code
    show ?thesis
    proof (cases "py_int (take (nat ?r3) (drop 3 l))")
      case (Inl e)
      from cmd_err_bad_code [OF ne enc rl err_code(1,2) refl err_code(3) Inl] c show ?thesis by simp
    next
      case (Inr n)
      from cmd_err_code [OF ne enc rl err_code(1,2) refl err_code(3) Inr] c
      have "assemble False 0 (Some n) u1 (drop (nat ?r3) (drop 3 l))
          = (Inr (success, payload, error_code), u')"
        by simp
      from assemble_result [OF this] Inr err_code(2) show ?thesis by simp
    qed
  next
    case err_mal
    from cmd_err_malformed [OF ne enc rl err_mal] c show ?thesis by simp
  next
    case unexpected
    from cmd_unexpected [OF ne enc rl unexpected] c show ?thesis by simp
  qed
  with enc rl show "(error_code \<noteq> None) = (\<not> success)"
    and "\<not> success \<Longrightarrow> error_code = Some 2
            \<or> (\<exists>wire l u1 n. encode (lit ''AT+'' @ escape command @ [CR, LF]) = Inr wire
                  \<and> readline (uart_write u wire) = (Inr l, u1)
                  \<and> startswith l (lit ''ERR'')
                  \<and> py_int (take (nat (str_find (drop 3 l) [SP])) (drop 3 l)) = Inr n
                  \<and> error_code = Some n)"
    by blast+
next
  assume "command \<noteq> [] \<and> encode (lit ''AT+'' @ escape command @ [CR, LF]) = Inr w
        \<and> readline (uart_write u w) = (Inr line, u2)
        \<and> \<not> startswith line (lit ''OK'') \<and> \<not> startswith line (lit ''ERR'')"
  then show "cmd u command = (Inr (False, line, Some 2), u2)"
    by (simp add: cmd_unexpected)
qed


lemma connect_wire:
  "encode (lit ''AT+'' @ escape (lit ''CONNECT?'') @ [CR, LF]) = Inr (lit ''AT+CONNECT?'' @ [CR, LF])"
  by (simp add: str_defs codec_defs)

lemma connect_ne: "lit ''CONNECT?'' \<noteq> []"
  by (simp add: lit_def)

theorem cmd_error_code_iff_witness:
  "fst (cmd (script [Bytes (lit ''ERR5 y'' @ [CR, LF])]) (lit ''CONNECT?''))
      = Inr (False, lit ''y'', Some 5)
   \<and> ((Some 5 \<noteq> (None :: int option)) = (\<not> False))
   \<and> fst (cmd (script [Bytes (lit ''garbage'' @ [CR, LF])]) (lit ''CONNECT?''))
      = Inr (False, lit ''garbage'', Some 2)"
proof -
  let ?uE = "script [Bytes (lit ''ERR5 y'' @ [CR, LF])]"
  let ?uG = "script [Bytes (lit ''garbage'' @ [CR, LF])]"
  let ?w = "lit ''AT+CONNECT?'' @ [CR, LF]"
  let ?uE' = "?uE\<lparr>polls := Suc (polls ?uE), tx := tx ?uE @ [?w]\<rparr>"
  let ?uG' = "?uG\<lparr>polls := Suc (polls ?uG), tx := tx ?uG @ [?w]\<rparr>"
  have rlE: "readline (uart_write ?uE ?w) = (Inr (lit ''ERR5 y''), ?uE')"
  proof (rule readline_reply)
    show "rx ?uE (polls ?uE) = Bytes (lit ''ERR5 y'' @ [CR, LF])" by (simp add: script_def)
    show "endswith (lit ''ERR5 y'' @ [CR, LF]) [LF]" by (simp add: str_defs)
    show "decode (lit ''ERR5 y'' @ [CR, LF]) = Inr (lit ''ERR5 y'' @ [CR, LF])"
      by (simp add: str_defs codec_defs)
    show "unescape (str_strip fillers (lit ''ERR5 y'' @ [CR, LF])) = lit ''ERR5 y''"
      by (simp add: str_defs codec_defs)
  qed
  have "cmd ?uE (lit ''CONNECT?'')
      = assemble False 0 (Some 5) ?uE' (drop (nat 1) (drop 3 (lit ''ERR5 y'')))"
  proof (rule cmd_err_code [OF connect_ne connect_wire rlE])
    show "\<not> startswith (lit ''ERR5 y'') (lit ''OK'')" by (simp add: str_defs)
    show "startswith (lit ''ERR5 y'') (lit ''ERR'')" by (simp add: str_defs)
    show "str_find (drop 3 (lit ''ERR5 y'')) [SP] = 1" by (simp add: str_defs)
    show "(0::int) < 1" by simp
    show "py_int (take (nat 1) (drop 3 (lit ''ERR5 y''))) = Inr 5" by (simp add: str_defs)
  qed
  moreover have "strip (drop (nat 1) (drop 3 (lit ''ERR5 y''))) = lit ''y''"
    by (simp add: str_defs)
  ultimately have evE: "cmd ?uE (lit ''CONNECT?'') = (Inr (False, lit ''y'', Some 5), ?uE')"
    by (simp only: assemble_zero)
  have iff: "(Some 5 \<noteq> (None :: int option)) = (\<not> False)"
    using cmd_error_code_iff [THEN conjunct1, rule_format, OF evE] by blast
  have rlG: "readline (uart_write ?uG ?w) = (Inr (lit ''garbage''), ?uG')"
  proof (rule readline_reply)
    show "rx ?uG (polls ?uG) = Bytes (lit ''garbage'' @ [CR, LF])" by (simp add: script_def)
    show "endswith (lit ''garbage'' @ [CR, LF]) [LF]" by (simp add: str_defs)
    show "decode (lit ''garbage'' @ [CR, LF]) = Inr (lit ''garbage'' @ [CR, LF])"
      by (simp add: str_defs codec_defs)
    show "unescape (str_strip fillers (lit ''garbage'' @ [CR, LF])) = lit ''garbage''"
      by (simp add: str_defs codec_defs)
  qed
  have "\<not> startswith (lit ''garbage'') (lit ''OK'')" "\<not> startswith (lit ''garbage'') (lit ''ERR'')"
    by (simp_all add: str_defs)
  with connect_ne connect_wire rlG
  have evG: "cmd ?uG (lit ''CONNECT?'') = (Inr (False, lit ''garbage'', Some 2), ?uG')"
    by (intro cmd_error_code_iff [THEN conjunct2, rule_format] conjI)
  from evE iff evG show ?thesis by simp
qed

section \<open>Certificate getters\<close>

lemma lstrip_run:
  "\<exists>run rest. s = run @ rest \<and> set run \<subseteq> set chars \<and> (rest = [] \<or> hd rest \<notin> set chars)
     \<and> str_lstrip chars s = rest"
proof (intro exI conjI)
  show "s = takeWhile (\<lambda>c. c \<in> set chars) s @ dropWhile (\<lambda>c. c \<in> set chars) s" by simp
  show "set (takeWhile (\<lambda>c. c \<in> set chars) s) \<subseteq> set chars"
    by (auto dest: set_takeWhileD)
  show "dropWhile (\<lambda>c. c \<in> set chars) s = [] \<or> hd (dropWhile (\<lambda>c. c \<in> set chars) s) \<notin> set chars"
    using hd_dropWhile [of "\<lambda>c. c \<in> set chars" s] by blast
  show "str_lstrip chars s = dropWhile (\<lambda>c. c \<in> set chars) s" by (simp add: str_lstrip_def)
qed

lemma pem_getter:
  assumes "cmd u (lit ''CONF? '' @ q) = (Inr (True, line, code), u')"
  shows "\<exists>run rest. line = run @ rest \<and> set run \<subseteq> set (lit ''pem'')
      \<and> (rest = [] \<or> hd rest \<notin> set (lit ''pem''))
      \<and> (case extract_value u q of
            (Inl e, u') \<Rightarrow> (Inl e, u')
          | (Inr v, u') \<Rightarrow> (Inr (strip (str_lstrip (lit ''pem'') v)), u')) = (Inr (strip rest), u')"
proof -
  from lstrip_run [of line "lit ''pem''"] obtain run rest where
    "line = run @ rest" "set run \<subseteq> set (lit ''pem'')" "rest = [] \<or> hd rest \<notin> set (lit ''pem'')"
    "str_lstrip (lit ''pem'') line = rest" by blast
  with assms show ?thesis by (auto simp: extract_value_def)
qed

lemma certificate_query_example:
  "cmd (script [Bytes (lit ''OK pempqr'' @ [CR, LF])]) (lit ''CONF? Certificate pem'') =
    (Inr (True, lit ''pem'' @ lit ''pqr'', None),
     \<lparr>rx = rx (script [Bytes (lit ''OK pempqr'' @ [CR, LF])]), polls = 1,
      tx = [lit ''AT+CONF? Certificate pem'' @ [CR, LF]]\<rparr>)"
proof -
  let ?u = "script [Bytes (lit ''OK pempqr'' @ [CR, LF])]"
  have "cmd ?u (lit ''CONF? Certificate pem'') =
    (Inr (True, strip (drop 2 (lit ''OK pempqr'')), None),
     ?u\<lparr>polls := Suc (polls ?u), tx := tx ?u @ [lit ''AT+CONF? Certificate pem'' @ [CR, LF]]\<rparr>)"
  proof (rule cmd_ok_plain_first)
    show "lit ''CONF? Certificate pem'' \<noteq> []" by (simp add: lit_def)
    show "encode (lit ''AT+'' @ escape (lit ''CONF? Certificate pem'') @ [CR, LF])
        = Inr (lit ''AT+CONF? Certificate pem'' @ [CR, LF])"
      by (simp add: str_defs codec_defs)
    show "rx ?u (polls ?u) = Bytes (lit ''OK pempqr'' @ [CR, LF])" by (simp add: script_def)
    show "endswith (lit ''OK pempqr'' @ [CR, LF]) [LF]" by (simp add: str_defs)
    show "decode (lit ''OK pempqr'' @ [CR, LF]) = Inr (lit ''OK pempqr'' @ [CR, LF])"
      by (simp add: str_defs codec_defs)
    show "unescape (str_strip fillers (lit ''OK pempqr'' @ [CR, LF])) = lit ''OK pempqr''"
      by (simp add: str_defs codec_defs)
    show "startswith (lit ''OK pempqr'') (lit ''OK'')" by (simp add: str_defs)
    show "str_find (drop 2 (lit ''OK pempqr'')) [SP] \<le> 0" by (simp add: str_defs)
  qed
  moreover have "strip (drop 2 (lit ''OK pempqr'')) = lit ''pem'' @ lit ''pqr''"
    by (simp add: str_defs)
  ultimately show ?thesis by (simp add: script_def)
qed

lemma certificate_example:
  "fst (Certificate (script [Bytes (lit ''OK pempqr'' @ [CR, LF])])) = Inr (lit ''qr'')"
proof -
  have s: "strip (str_lstrip (lit ''pem'') (lit ''pem'' @ lit ''pqr'')) = lit ''qr''"
    by (simp add: str_defs)
  have q: "lit ''CONF? '' @ lit ''Certificate pem'' = lit ''CONF? Certificate pem''"
    by (simp add: lit_def)
  show ?thesis
    unfolding Certificate_def extract_value_def q certificate_query_example
    by (simp add: s)
qed

text \<open>
  C9: the getters \<open>Certificate\<close>, \<open>RootCA\<close>, \<open>HOTAcertificate\<close> and \<open>OTAcertificate\<close> drop
  from the front of a successful payload the whole leading run of the letters \<open>p\<close>,
  \<open>e\<close>, \<open>m\<close> (the rest starts with another character or is empty) and then the
  surrounding whitespace.  So a body that starts with one of these letters right after the
  marker loses them too: the payload \<open>pem\<close> followed by \<open>pqr\<close> comes back as \<open>qr\<close>.
\<close>

theorem pem_getters_strip_run:
  "(cmd u (lit ''CONF? Certificate pem'') = (Inr (True, line, code), u') \<longrightarrow>
      (\<exists>run rest. line = run @ rest \<and> set run \<subseteq> set (lit ''pem'')
         \<and> (rest = [] \<or> hd rest \<notin> set (lit ''pem''))
         \<and> Certificate u = (Inr (strip rest), u')))
   \<and> (cmd u (lit ''CONF? RootCA pem'') = (Inr (True, line, code), u') \<longrightarrow>
      (\<exists>run rest. line = run @ rest \<and> set run \<subseteq> set (lit ''pem'')
         \<and> (rest = [] \<or> hd rest \<notin> set (lit ''pem''))
         \<and> RootCA u = (Inr (strip rest), u')))
   \<and> (cmd u (lit ''CONF? HOTAcertificate pem'') = (Inr (True, line, code), u') \<longrightarrow>
      (\<exists>run rest. line = run @ rest \<and> set run \<subseteq> set (lit ''pem'')
         \<and> (rest = [] \<or> hd rest \<notin> set (lit ''pem''))
         \<and> HOTAcertificate u = (Inr (strip rest), u')))
   \<and> (cmd u (lit ''CONF? OTAcertificate pem'') = (Inr (True, line, code), u') \<longrightarrow>
      (\<exists>run rest. line = run @ rest \<and> set run \<subseteq> set (lit ''pem'')
         \<and> (rest = [] \<or> hd rest \<notin> set (lit ''pem''))
         \<and> OTAcertificate u = (Inr (strip rest), u')))
   \<and> (\<exists>v body. body \<noteq> [] \<and> hd body \<in> set (lit ''pem'')
         \<and> fst (cmd v (lit ''CONF? Certificate pem'')) = Inr (True, lit ''pem'' @ body, None)
         \<and> fst (Certificate v) \<noteq> Inr (strip body))"
proof -
  have q: "lit ''CONF? Certificate pem'' = lit ''CONF? '' @ lit ''Certificate pem''"
    "lit ''CONF? RootCA pem'' = lit ''CONF? '' @ lit ''RootCA pem''"
    "lit ''CONF? HOTAcertificate pem'' = lit ''CONF? '' @ lit ''HOTAcertificate pem''"
    "lit ''CONF? OTAcertificate pem'' = lit ''CONF? '' @ lit ''OTAcertificate pem''"
    by (simp_all add: lit_def)
  have general: "?thesis" if "\<exists>v body. body \<noteq> [] \<and> hd body \<in> set (lit ''pem'')
         \<and> fst (cmd v (lit ''CONF? Certificate pem'')) = Inr (True, lit ''pem'' @ body, None)
         \<and> fst (Certificate v) \<noteq> Inr (strip body)"
    using that
    unfolding q Certificate_def RootCA_def HOTAcertificate_def OTAcertificate_def
    by (intro conjI impI pem_getter)
  let ?v = "script [Bytes (lit ''OK pempqr'' @ [CR, LF])]"
  have "lit ''pqr'' \<noteq> []" "hd (lit ''pqr'') \<in> set (lit ''pem'')"
    "strip (lit ''pqr'') \<noteq> lit ''qr''"
    by (simp_all add: str_defs)
  moreover have "fst (cmd ?v (lit ''CONF? Certificate pem'')) = Inr (True, lit ''pem'' @ lit ''pqr'', None)"
    by (simp add: certificate_query_example)
  ultimately have "lit ''pqr'' \<noteq> [] \<and> hd (lit ''pqr'') \<in> set (lit ''pem'')
         \<and> fst (cmd ?v (lit ''CONF? Certificate pem'')) = Inr (True, lit ''pem'' @ lit ''pqr'', None)
         \<and> fst (Certificate ?v) \<noteq> Inr (strip (lit ''pqr''))"
    by (simp add: certificate_example)
  then show ?thesis by (intro general exI)
qed

theorem pem_getters_strip_run_witness:
  "fst (cmd (script [Bytes (lit ''OK pempqr'' @ [CR, LF])]) (lit ''CONF? Certificate pem''))
      = Inr (True, lit ''pem'' @ lit ''pqr'', None)
   \<and> (\<exists>run rest. lit ''pem'' @ lit ''pqr'' = run @ rest \<and> set run \<subseteq> set (lit ''pem'')
         \<and> (rest = [] \<or> hd rest \<notin> set (lit ''pem''))
         \<and> fst (Certificate (script [Bytes (lit ''OK pempqr'' @ [CR, LF])])) = Inr (strip rest))
   \<and> fst (Certificate (script [Bytes (lit ''OK pempqr'' @ [CR, LF])])) = Inr (lit ''qr'')"
proof -
  from pem_getters_strip_run [THEN conjunct1, rule_format, OF certificate_query_example]
  obtain run rest where "lit ''pem'' @ lit ''pqr'' = run @ rest" "set run \<subseteq> set (lit ''pem'')"
    "rest = [] \<or> hd rest \<notin> set (lit ''pem'')"
    "fst (Certificate (script [Bytes (lit ''OK pempqr'' @ [CR, LF])])) = Inr (strip rest)"
    by force
  then have "\<exists>run rest. lit ''pem'' @ lit ''pqr'' = run @ rest \<and> set run \<subseteq> set (lit ''pem'')
         \<and> (rest = [] \<or> hd rest \<notin> set (lit ''pem''))
         \<and> fst (Certificate (script [Bytes (lit ''OK pempqr'' @ [CR, LF])])) = Inr (strip rest)"
    by blast
  then show ?thesis
    by (simp only: certificate_example certificate_query_example fst_conv simp_thms)
qed

section \<open>The event query\<close>

text \<open>
  C10: when \<open>EVENT?\<close> is answered without success, whatever the payload and the error
  code, \<open>get_event\<close> returns four times \<open>None\<close>, as it does for a successful empty
  payload (no event pending): the error code does not reach the caller.
\<close>

theorem get_event_unsuccessful:
  "(cmd u (lit ''EVENT?'') = (Inr (False, line, code), u') \<longrightarrow>
      fst (get_event event_signal u) = Inr (None, None, None, None)
      \<and> (event_signal \<noteq> Some False \<longrightarrow>
            get_event event_signal u = (Inr (None, None, None, None), u')))
   \<and> (cmd u (lit ''EVENT?'') = (Inr (True, [], code), u') \<longrightarrow>
      fst (get_event event_signal u) = Inr (None, None, None, None)
      \<and> (event_signal \<noteq> Some False \<longrightarrow>
            get_event event_signal u = (Inr (None, None, None, None), u')))"
  by (simp add: get_event_def)

lemma event_wire:
  "encode (lit ''AT+'' @ escape (lit ''EVENT?'') @ [CR, LF]) = Inr (lit ''AT+EVENT?'' @ [CR, LF])"
  by (simp add: str_defs codec_defs)

lemma event_query_error:
  "cmd (script [Bytes (lit ''ERR5 foo'' @ [CR, LF])]) (lit ''EVENT?'') =
    (Inr (False, lit ''foo'', Some 5),
     \<lparr>rx = rx (script [Bytes (lit ''ERR5 foo'' @ [CR, LF])]), polls = 1,
      tx = [lit ''AT+EVENT?'' @ [CR, LF]]\<rparr>)"
proof -
  let ?u = "script [Bytes (lit ''ERR5 foo'' @ [CR, LF])]"
  let ?w = "lit ''AT+EVENT?'' @ [CR, LF]"
  let ?u' = "?u\<lparr>polls := Suc (polls ?u), tx := tx ?u @ [?w]\<rparr>"
  have ne: "lit ''EVENT?'' \<noteq> []" by (simp add: lit_def)
  have rl: "readline (uart_write ?u ?w) = (Inr (lit ''ERR5 foo''), ?u')"
  proof (rule readline_reply)
    show "rx ?u (polls ?u) = Bytes (lit ''ERR5 foo'' @ [CR, LF])" by (simp add: script_def)
    show "endswith (lit ''ERR5 foo'' @ [CR, LF]) [LF]" by (simp add: str_defs)
    show "decode (lit ''ERR5 foo'' @ [CR, LF]) = Inr (lit ''ERR5 foo'' @ [CR, LF])"
      by (simp add: str_defs codec_defs)
    show "unescape (str_strip fillers (lit ''ERR5 foo'' @ [CR, LF])) = lit ''ERR5 foo''"
      by (simp add: str_defs codec_defs)
  qed
  have "cmd ?u (lit ''EVENT?'')
      = assemble False 0 (Some 5) ?u' (drop (nat 1) (drop 3 (lit ''ERR5 foo'')))"
  proof (rule cmd_err_code [OF ne event_wire rl])
    show "\<not> startswith (lit ''ERR5 foo'') (lit ''OK'')" by (simp add: str_defs)
    show "startswith (lit ''ERR5 foo'') (lit ''ERR'')" by (simp add: str_defs)
    show "str_find (drop 3 (lit ''ERR5 foo'')) [SP] = 1" by (simp add: str_defs)
    show "(0::int) < 1" by simp
    show "py_int (take (nat 1) (drop 3 (lit ''ERR5 foo''))) = Inr 5" by (simp add: str_defs)
  qed
  moreover have "strip (drop (nat 1) (drop 3 (lit ''ERR5 foo''))) = lit ''foo''"
    by (simp add: str_defs)
  ultimately have "cmd ?u (lit ''EVENT?'') = (Inr (False, lit ''foo'', Some 5), ?u')"
    by (simp only: assemble_zero)
  then show ?thesis by (simp add: script_def)
qed

lemma event_query_empty:
  "cmd (script [Bytes (lit ''OK'' @ [CR, LF])]) (lit ''EVENT?'') =
    (Inr (True, [], None),
     \<lparr>rx = rx (script [Bytes (lit ''OK'' @ [CR, LF])]), polls = 1,
      tx = [lit ''AT+EVENT?'' @ [CR, LF]]\<rparr>)"
proof -
  let ?u = "script [Bytes (lit ''OK'' @ [CR, LF])]"
  have "cmd ?u (lit ''EVENT?'') =
    (Inr (True, strip (drop 2 (lit ''OK'')), None),
     ?u\<lparr>polls := Suc (polls ?u), tx := tx ?u @ [lit ''AT+EVENT?'' @ [CR, LF]]\<rparr>)"
  proof (rule cmd_ok_plain_first [OF _ event_wire])
    show "lit ''EVENT?'' \<noteq> []" by (simp add: lit_def)
    show "rx ?u (polls ?u) = Bytes (lit ''OK'' @ [CR, LF])" by (simp add: script_def)
    show "endswith (lit ''OK'' @ [CR, LF]) [LF]" by (simp add: str_defs)
    show "decode (lit ''OK'' @ [CR, LF]) = Inr (lit ''OK'' @ [CR, LF])"
      by (simp add: str_defs codec_defs)
    show "unescape (str_strip fillers (lit ''OK'' @ [CR, LF])) = lit ''OK''"
      by (simp add: str_defs codec_defs)
    show "startswith (lit ''OK'') (lit ''OK'')" by (simp add: str_defs)
    show "str_find (drop 2 (lit ''OK'')) [SP] \<le> 0" by (simp add: str_defs)
  qed
  moreover have "strip (drop 2 (lit ''OK'')) = []"
    by (simp add: str_defs)
  ultimately show ?thesis by (simp add: script_def)
qed

theorem get_event_unsuccessful_witness:
  "fst (cmd (script [Bytes (lit ''ERR5 foo'' @ [CR, LF])]) (lit ''EVENT?''))
      = Inr (False, lit ''foo'', Some 5)
   \<and> fst (get_event None (script [Bytes (lit ''ERR5 foo'' @ [CR, LF])]))
      = Inr (None, None, None, None)
   \<and> fst (cmd (script [Bytes (lit ''OK'' @ [CR, LF])]) (lit ''EVENT?'')) = Inr (True, [], None)
   \<and> fst (get_event None (script [Bytes (lit ''OK'' @ [CR, LF])]))
      = Inr (None, None, None, None)"
proof -
  note a = get_event_unsuccessful [THEN conjunct1, rule_format, OF event_query_error,
    THEN conjunct1, of None]
  note b = get_event_unsuccessful [THEN conjunct2, rule_format, OF event_query_empty,
    THEN conjunct1, of None]
  from a b show ?thesis
    by (simp add: event_query_error event_query_empty)
qed

section \<open>Trimming the line\<close>



lemma poll_loop_counter_first:
  assumes "rx u (polls u) = Bytes p" and "endswith p [LF]"
  shows "poll_loop counter u [] = (Inr p, u\<lparr>polls := Suc (polls u)\<rparr>)"
proof -
  have "poll_loop (Suc 299) u [] = (Inr p, u\<lparr>polls := Suc (polls u)\<rparr>)"
    by (rule poll_loop_first [OF assms])
  moreover have "counter = Suc 299" by (simp add: counter_def)
  ultimately show ?thesis by (simp only:)
qed







section \<open>The bound on the reads\<close>

lemma received_shift:
  "received u (Suc k) = chunk (rx u (polls u)) @ received (u\<lparr>polls := Suc (polls u)\<rparr>) k"
  by (induction k) simp_all

lemma uart_readline_bytes:
  assumes "rx u (polls u) \<noteq> Fault"
  shows "uart_readline u = (Inr (chunk (rx u (polls u))), u\<lparr>polls := Suc (polls u)\<rparr>)"
  using assms by (cases "rx u (polls u)") (simp_all add: uart_readline_def chunk_def)

lemma poll_loop_step:
  assumes "rx u (polls u) \<noteq> Fault"
  shows "poll_loop (Suc n) u l =
    (if endswith (l @ chunk (rx u (polls u))) [LF]
     then (Inr (l @ chunk (rx u (polls u))), u\<lparr>polls := Suc (polls u)\<rparr>)
     else poll_loop n (u\<lparr>polls := Suc (polls u)\<rparr>) (l @ chunk (rx u (polls u))))"
  by (simp add: uart_readline_bytes [OF assms] Let_def)

lemma poll_loop_stop:
  assumes "0 < k" and "k \<le> n"
    and "\<forall>i<k. rx u (polls u + i) \<noteq> Fault"
    and "endswith (l @ received u k) [LF]"
    and "\<forall>j. 0 < j \<and> j < k \<longrightarrow> \<not> endswith (l @ received u j) [LF]"
  shows "poll_loop n u l = (Inr (l @ received u k), u\<lparr>polls := polls u + k\<rparr>)"
  using assms
proof (induction n arbitrary: u l k)
  case 0
  then show ?case by simp
next
  case (Suc n)
  let ?p = "chunk (rx u (polls u))"
  let ?u1 = "u\<lparr>polls := Suc (polls u)\<rparr>"
  from Suc.prems(1,3) have nf: "rx u (polls u) \<noteq> Fault" by force
  show ?case
  proof (cases "k = 1")
    case True
    with Suc.prems(4) show ?thesis
      unfolding poll_loop_step [OF nf] by simp
  next
    case False
    with Suc.prems(1) obtain k' where k: "k = Suc k'" "0 < k'" by (cases k) auto
    from Suc.prems(5) [rule_format, of 1] k have "\<not> endswith (l @ received u 1) [LF]" by simp
    then have first: "\<not> endswith (l @ ?p) [LF]" by simp
    have "poll_loop n ?u1 (l @ ?p) = (Inr ((l @ ?p) @ received ?u1 k'), ?u1\<lparr>polls := polls ?u1 + k'\<rparr>)"
    proof (rule Suc.IH)
      show "0 < k'" by (rule k(2))
      show "k' \<le> n" using Suc.prems(2) k by simp
      show "\<forall>i<k'. rx ?u1 (polls ?u1 + i) \<noteq> Fault"
        using Suc.prems(3) k by auto
      show "endswith ((l @ ?p) @ received ?u1 k') [LF]"
        using Suc.prems(4) k by (simp add: received_shift del: received.simps)
      show "\<forall>j. 0 < j \<and> j < k' \<longrightarrow> \<not> endswith ((l @ ?p) @ received ?u1 j) [LF]"
      proof (intro allI impI)
        fix j assume "0 < j \<and> j < k'"
        with Suc.prems(5) [rule_format, of "Suc j"] k
        have "\<not> endswith (l @ received u (Suc j)) [LF]" by simp
        then show "\<not> endswith ((l @ ?p) @ received ?u1 j) [LF]"
          by (simp add: received_shift del: received.simps)
      qed
    qed
    with first k show ?thesis
      unfolding poll_loop_step [OF nf] by (simp add: received_shift del: received.simps)
  qed
qed

lemma poll_loop_timeout:
  assumes "\<forall>i<n. rx u (polls u + i) \<noteq> Fault"
    and "\<forall>j. 0 < j \<and> j \<le> n \<longrightarrow> \<not> endswith (l @ received u j) [LF]"
  shows "poll_loop n u l = (Inr (l @ received u n), u\<lparr>polls := polls u + n\<rparr>)"
  using assms
proof (induction n arbitrary: u l)
  case 0
  then show ?case by simp
next
  case (Suc n)
  let ?p = "chunk (rx u (polls u))"
  let ?u1 = "u\<lparr>polls := Suc (polls u)\<rparr>"
  from Suc.prems(1) have nf: "rx u (polls u) \<noteq> Fault" by force
  from Suc.prems(2) [rule_format, of 1] have "\<not> endswith (l @ received u 1) [LF]" by simp
  then have first: "\<not> endswith (l @ ?p) [LF]" by simp
  have "poll_loop n ?u1 (l @ ?p) = (Inr ((l @ ?p) @ received ?u1 n), ?u1\<lparr>polls := polls ?u1 + n\<rparr>)"
  proof (rule Suc.IH)
    show "\<forall>i<n. rx ?u1 (polls ?u1 + i) \<noteq> Fault"
      using Suc.prems(1) by auto
    show "\<forall>j. 0 < j \<and> j \<le> n \<longrightarrow> \<not> endswith ((l @ ?p) @ received ?u1 j) [LF]"
    proof (intro allI impI)
      fix j assume "0 < j \<and> j \<le> n"
      with Suc.prems(2) [rule_format, of "Suc j"]
      have "\<not> endswith (l @ received u (Suc j)) [LF]" by simp
      then show "\<not> endswith ((l @ ?p) @ received ?u1 j) [LF]"
        by (simp add: received_shift del: received.simps)
    qed
  qed
  with first show ?case
    unfolding poll_loop_step [OF nf] by (simp add: received_shift del: received.simps)
qed

lemma poll_loop_polls: "polls (snd (poll_loop n u l)) \<le> polls u + n"
proof (induction n arbitrary: u l)
  case 0
  then show ?case by simp
next
  case (Suc n)
  have "polls (snd (poll_loop n (u\<lparr>polls := Suc (polls u)\<rparr>) l')) \<le> Suc (polls u) + n" for l'
    using Suc.IH [of "u\<lparr>polls := Suc (polls u)\<rparr>" l'] by simp
  then show ?case
    by (auto simp: uart_readline_def Let_def split: poll.splits)
qed

lemma readline_polls: "polls (snd (readline u)) \<le> polls u + counter"
  using poll_loop_polls [of counter u "[]"]
  by (auto simp: readline_def split: prod.splits sum.splits)


lemma received_script_single:
  "received (script [q]) (Suc j) = chunk q"
  by (induction j) (simp_all add: script_def chunk_def)

lemma script_single_no_fault:
  "rx (script [Bytes p]) (polls (script [Bytes p]) + i) \<noteq> Fault"
  by (simp add: script_def)

lemma poll_loop_script_single_timeout:
  assumes "\<not> endswith p [LF]"
  shows "poll_loop counter (script [Bytes p]) []
    = (Inr p, (script [Bytes p])\<lparr>polls := counter\<rparr>)"
proof -
  let ?u = "script [Bytes p]"
  have r: "received ?u j = p" if "0 < j" for j
    using that received_script_single [of "Bytes p" "j - 1"] by (simp add: chunk_def)
  have "poll_loop counter ?u [] = (Inr ([] @ received ?u counter), ?u\<lparr>polls := polls ?u + counter\<rparr>)"
  proof (rule poll_loop_timeout)
    show "\<forall>i<counter. rx ?u (polls ?u + i) \<noteq> Fault"
      by (simp add: script_single_no_fault)
    show "\<forall>j. 0 < j \<and> j \<le> counter \<longrightarrow> \<not> endswith ([] @ received ?u j) [LF]"
      using assms by (simp add: r)
  qed
  moreover have "0 < counter" by (simp add: counter_def)
  moreover have "polls ?u = 0" by (simp add: script_def)
  ultimately show ?thesis by (simp add: r)
qed

text \<open>
  What the loop does when the reads do not raise: it makes at most 300 reads, stops at the
  first read after which the accumulated bytes end with a line feed and otherwise goes on
  with all that was accumulated; accumulated bytes that decode are returned trimmed and
  unescaped.
\<close>

lemma readline_bounded:
  "counter = 300
   \<and> polls (snd (readline u)) \<le> polls u + counter
   \<and> ((\<forall>i<k. rx u (polls u + i) \<noteq> Fault) \<and> 0 < k \<and> k \<le> counter
        \<and> endswith (received u k) [LF]
        \<and> (\<forall>j. 0 < j \<and> j < k \<longrightarrow> \<not> endswith (received u j) [LF])
        \<and> decode (received u k) = Inr s
      \<longrightarrow> readline u = (Inr (unescape (str_strip fillers s)), u\<lparr>polls := polls u + k\<rparr>))
   \<and> ((\<forall>i<counter. rx u (polls u + i) \<noteq> Fault)
        \<and> (\<forall>j. 0 < j \<and> j \<le> counter \<longrightarrow> \<not> endswith (received u j) [LF])
        \<and> decode (received u counter) = Inr s
      \<longrightarrow> readline u = (Inr (unescape (str_strip fillers s)), u\<lparr>polls := polls u + counter\<rparr>))"
proof (intro conjI impI)
  show "counter = 300" by (simp add: counter_def)
  show "polls (snd (readline u)) \<le> polls u + counter" by (rule readline_polls)
next
  assume a: "(\<forall>i<k. rx u (polls u + i) \<noteq> Fault) \<and> 0 < k \<and> k \<le> counter
        \<and> endswith (received u k) [LF]
        \<and> (\<forall>j. 0 < j \<and> j < k \<longrightarrow> \<not> endswith (received u j) [LF])
        \<and> decode (received u k) = Inr s"
  have "poll_loop counter u [] = (Inr ([] @ received u k), u\<lparr>polls := polls u + k\<rparr>)"
    by (rule poll_loop_stop) (use a in simp_all)
  with a show "readline u = (Inr (unescape (str_strip fillers s)), u\<lparr>polls := polls u + k\<rparr>)"
    by (simp add: readline_def)
next
  assume a: "(\<forall>i<counter. rx u (polls u + i) \<noteq> Fault)
        \<and> (\<forall>j. 0 < j \<and> j \<le> counter \<longrightarrow> \<not> endswith (received u j) [LF])
        \<and> decode (received u counter) = Inr s"
  have "poll_loop counter u [] = (Inr ([] @ received u counter), u\<lparr>polls := polls u + counter\<rparr>)"
    by (rule poll_loop_timeout) (use a in simp_all)
  with a show "readline u = (Inr (unescape (str_strip fillers s)), u\<lparr>polls := polls u + counter\<rparr>)"
    by (simp add: readline_def)
qed

lemma readline_bounded_example:
  "readline (script [Bytes (lit ''O''), Bytes (lit ''K'' @ [CR, LF]), Bytes (lit ''junk'')])
     = (Inr (lit ''OK''),
        (script [Bytes (lit ''O''), Bytes (lit ''K'' @ [CR, LF]), Bytes (lit ''junk'')])\<lparr>polls := 2\<rparr>)
   \<and> readline (script [Bytes (lit ''OK'')])
     = (Inr (lit ''OK''), (script [Bytes (lit ''OK'')])\<lparr>polls := 300\<rparr>)
   \<and> polls (snd (readline (script [Bytes (lit ''OK'')]))) \<le> 300"
proof -
  let ?u1 = "script [Bytes (lit ''O''), Bytes (lit ''K'' @ [CR, LF]), Bytes (lit ''junk'')]"
  let ?u2 = "script [Bytes (lit ''OK'')]"
  have c: "counter = 300" by (simp add: counter_def)
  have s1: "polls ?u1 = 0" "rx ?u1 0 = Bytes (lit ''O'')" "rx ?u1 (Suc 0) = Bytes (lit ''K'' @ [CR, LF])"
    by (simp_all add: script_def)
  have s2: "polls ?u2 = 0" by (simp add: script_def)
  have r1: "received ?u1 (Suc 0) = lit ''O''"
    "received ?u1 (Suc (Suc 0)) = lit ''O'' @ lit ''K'' @ [CR, LF]"
    by (simp_all add: s1 chunk_def)
  have "readline ?u1 = (Inr (unescape (str_strip fillers (lit ''O'' @ lit ''K'' @ [CR, LF]))),
      ?u1\<lparr>polls := polls ?u1 + Suc (Suc 0)\<rparr>)"
  proof (rule readline_bounded [THEN conjunct2, THEN conjunct2, THEN conjunct1, rule_format],
      intro conjI allI impI)
    show "rx ?u1 (polls ?u1 + i) \<noteq> Fault" for i by (simp add: script_def nth_Cons')
    show "0 < Suc (Suc 0)" by simp
    show "Suc (Suc 0) \<le> counter" by (simp add: c)
    show "endswith (received ?u1 (Suc (Suc 0))) [LF]" unfolding r1 by (simp add: str_defs)
    show "\<not> endswith (received ?u1 j) [LF]" if "0 < j \<and> j < Suc (Suc 0)" for j
    proof -
      from that have "j = Suc 0" by simp
      then have "received ?u1 j = lit ''O''" by (simp only: r1)
      then show ?thesis by (simp add: str_defs)
    qed
    show "decode (received ?u1 (Suc (Suc 0))) = Inr (lit ''O'' @ lit ''K'' @ [CR, LF])"
      unfolding r1 by (simp add: str_defs codec_defs)
  qed
  moreover have "unescape (str_strip fillers (lit ''O'' @ lit ''K'' @ [CR, LF])) = lit ''OK''"
    by (simp add: str_defs codec_defs)
  ultimately have a: "readline ?u1 = (Inr (lit ''OK''), ?u1\<lparr>polls := 2\<rparr>)"
    by (simp add: s1)
  have r2: "received ?u2 j = lit ''OK''" if "0 < j" for j
    using that received_script_single [of "Bytes (lit ''OK'')" "j - 1"] by (simp add: chunk_def)
  have "readline ?u2 = (Inr (unescape (str_strip fillers (lit ''OK''))),
      ?u2\<lparr>polls := polls ?u2 + counter\<rparr>)"
  proof (rule readline_bounded [THEN conjunct2, THEN conjunct2, THEN conjunct2, rule_format],
      intro conjI allI impI)
    show "rx ?u2 (polls ?u2 + i) \<noteq> Fault" for i by (rule script_single_no_fault)
    show "\<not> endswith (received ?u2 j) [LF]" if "0 < j \<and> j \<le> counter" for j
      using that unfolding r2 [of j, OF conjunct1 [OF that]] by (simp add: str_defs)
    have "0 < counter" by (simp add: c)
    from r2 [OF this] show "decode (received ?u2 counter) = Inr (lit ''OK'')"
      by (simp add: codec_defs lit_def)
  qed
  moreover have "unescape (str_strip fillers (lit ''OK'')) = lit ''OK''"
    by (simp add: str_defs codec_defs)
  ultimately have b: "readline ?u2 = (Inr (lit ''OK''), ?u2\<lparr>polls := 300\<rparr>)"
    by (simp add: s2 c)
  from a b show ?thesis by simp
qed

text \<open>
  C8: when no terminator is seen within the bound the line reader is claimed to return
  the partial accumulation and never to raise.  When the only byte that arrives is
  \<open>0xC3\<close>, the first byte of a two-byte UTF-8 sequence, the loop runs out with that byte
  accumulated, and \<open>decode\<close> raises \<open>UnicodeDecodeError\<close> where the claim has the byte
  returned.
\<close>

theorem readline_undecodable_partial_raises:
  "fst (poll_loop counter (script [Bytes [0xC3]]) []) = Inr [0xC3]
   \<and> fst (readline (script [Bytes [0xC3]])) = Inl UnicodeDecodeError"
proof -
  have "\<not> endswith [0xC3] [LF]" by (simp add: endswith_def)
  from poll_loop_script_single_timeout [OF this]
  have p: "poll_loop counter (script [Bytes [0xC3]]) []
    = (Inr [0xC3], (script [Bytes [0xC3]])\<lparr>polls := counter\<rparr>)" .
  have "decode [0xC3] = Inl UnicodeDecodeError" by (simp add: decode_def)
  with p show ?thesis by (simp add: readline_def)
qed

section \<open>The self-test\<close>

lemma poll_loop_tx: "tx (snd (poll_loop n u l)) = tx u"
proof (induction n arbitrary: u l)
  case 0
  then show ?case by simp
next
  case (Suc n)
  have "tx (snd (poll_loop n (u\<lparr>polls := Suc (polls u)\<rparr>) l')) = tx u" for l'
    using Suc.IH [of "u\<lparr>polls := Suc (polls u)\<rparr>" l'] by simp
  then show ?case
    by (auto simp: uart_readline_def Let_def split: poll.splits)
qed

lemma readline_tx: "tx (snd (readline u)) = tx u"
  using poll_loop_tx [of counter u "[]"]
  by (auto simp: readline_def split: prod.splits sum.splits)

lemma attempt_tx: "tx (snd (attempt u)) = tx u @ [lit ''AT'' @ [CR, LF]]"
  using readline_tx [of "uart_write u (lit ''AT'' @ [CR, LF])"]
  by (auto simp: attempt_def uart_write_def split: prod.splits sum.splits)

lemma attempts_tx:
  "tx (((snd \<circ> attempt) ^^ n) u) = tx u @ replicate n (lit ''AT'' @ [CR, LF])"
  by (induction n) (simp_all add: attempt_tx replicate_append_same)

lemma self_test_loop_fail:
  assumes "\<not> fst (attempt u)"
  shows "self_test_loop (Suc n) u = self_test_loop n (snd (attempt u))"
  using assms by (cases "attempt u") simp

lemma self_test_loop_ok:
  assumes "fst (attempt u)"
  shows "self_test_loop (Suc n) u = (True, snd (attempt u))"
  using assms by (cases "attempt u") simp

lemma self_test_loop_all_fail:
  assumes "\<forall>k<n. \<not> fst (attempt (((snd \<circ> attempt) ^^ k) u))"
  shows "self_test_loop n u = (False, ((snd \<circ> attempt) ^^ n) u)"
  using assms
proof (induction n arbitrary: u)
  case 0
  then show ?case by simp
next
  case (Suc n)
  from Suc.prems [rule_format, of 0] have f: "\<not> fst (attempt u)" by simp
  have "\<forall>k<n. \<not> fst (attempt (((snd \<circ> attempt) ^^ k) (snd (attempt u))))"
  proof (intro allI impI)
    fix k assume "k < n"
    with Suc.prems [rule_format, of "Suc k"]
    show "\<not> fst (attempt (((snd \<circ> attempt) ^^ k) (snd (attempt u))))"
      by (simp add: funpow_swap1)
  qed
  from Suc.IH [OF this] show ?case
    by (simp only: self_test_loop_fail [OF f] funpow_Suc_right comp_apply)
qed

lemma poll_loop_fault:
  assumes "rx u (polls u) = Fault"
  shows "poll_loop counter u [] = (Inl TransportError, u\<lparr>polls := Suc (polls u)\<rparr>)"
proof -
  have "poll_loop (Suc n) u [] = (Inl TransportError, u\<lparr>polls := Suc (polls u)\<rparr>)" for n
    using assms by (simp add: uart_readline_def)
  then have "poll_loop (Suc 299) u [] = (Inl TransportError, u\<lparr>polls := Suc (polls u)\<rparr>)" .
  moreover have "counter = Suc 299" by (simp add: counter_def)
  ultimately show ?thesis by (simp only:)
qed

lemma attempt_fault:
  assumes "rx u (polls u) = Fault"
  shows "attempt u = (False, u\<lparr>polls := Suc (polls u), tx := tx u @ [lit ''AT'' @ [CR, LF]]\<rparr>)"
proof -
  have "poll_loop counter (uart_write u (lit ''AT'' @ [CR, LF])) []
      = (Inl TransportError, (uart_write u (lit ''AT'' @ [CR, LF]))\<lparr>polls := Suc (polls u)\<rparr>)"
    using poll_loop_fault [of "uart_write u (lit ''AT'' @ [CR, LF])"] assms
    by (simp add: uart_write_def)
  then show ?thesis by (simp add: attempt_def readline_def uart_write_def)
qed

lemma attempt_undecodable:
  assumes "rx u (polls u) = Bytes p" and "endswith p [LF]" and "decode p = Inl e"
  shows "attempt u = (False, u\<lparr>polls := Suc (polls u), tx := tx u @ [lit ''AT'' @ [CR, LF]]\<rparr>)"
proof -
  have "poll_loop counter (uart_write u (lit ''AT'' @ [CR, LF])) []
      = (Inr p, (uart_write u (lit ''AT'' @ [CR, LF]))\<lparr>polls := Suc (polls u)\<rparr>)"
    using poll_loop_counter_first [of "uart_write u (lit ''AT'' @ [CR, LF])" p] assms(1,2)
    by (simp add: uart_write_def)
  then show ?thesis by (simp add: attempt_def readline_def uart_write_def assms(3))
qed

lemma attempt_line:
  assumes "rx u (polls u) = Bytes p" and "endswith p [LF]" and "decode p = Inr s"
    and "unescape (str_strip fillers s) = r"
  shows "attempt u = (strip r = lit ''OK'',
    u\<lparr>polls := Suc (polls u), tx := tx u @ [lit ''AT'' @ [CR, LF]]\<rparr>)"
  using readline_reply [OF assms, of "lit ''AT'' @ [CR, LF]"] by (simp add: attempt_def)

text \<open>
  C6: when none of five attempts in a row reads the success token, \<open>self_test\<close> has made
  exactly five attempts (five writes of \<open>AT\<close>), returns \<open>False\<close> and the channel's
  \<open>ready\<close> flag is false; when the first two attempts fail and the third reads the token,
  it returns \<open>True\<close> after three attempts and the channel is ready.  An attempt whose read
  raises counts as a failed attempt and the loop goes on; an attempt succeeds exactly when
  the line read, stripped, is \<open>OK\<close>.
\<close>

theorem self_test_attempts:
  "((\<forall>k<5. \<not> fst (attempt (((snd \<circ> attempt) ^^ k) u))) \<longrightarrow>
      self_test u = (False, ((snd \<circ> attempt) ^^ 5) u)
      \<and> tx (snd (self_test u)) = tx u @ replicate 5 (lit ''AT'' @ [CR, LF])
      \<and> \<not> ready (init u))
   \<and> (\<not> fst (attempt u) \<and> \<not> fst (attempt (snd (attempt u)))
        \<and> fst (attempt (snd (attempt (snd (attempt u))))) \<longrightarrow>
      self_test u = (True, ((snd \<circ> attempt) ^^ 3) u)
      \<and> tx (snd (self_test u)) = tx u @ replicate 3 (lit ''AT'' @ [CR, LF])
      \<and> ready (init u))
   \<and> (fst (readline (uart_write u (lit ''AT'' @ [CR, LF]))) = Inl e \<longrightarrow> \<not> fst (attempt u))
   \<and> (fst (attempt u)
        = (\<exists>r. fst (readline (uart_write u (lit ''AT'' @ [CR, LF]))) = Inr r \<and> strip r = lit ''OK''))"
proof (intro conjI impI)
  assume a: "\<forall>k<5. \<not> fst (attempt (((snd \<circ> attempt) ^^ k) u))"
  from self_test_loop_all_fail [OF a]
  show s: "self_test u = (False, ((snd \<circ> attempt) ^^ 5) u)"
    by (simp add: self_test_def)
  show "tx (snd (self_test u)) = tx u @ replicate 5 (lit ''AT'' @ [CR, LF])"
    unfolding s by (simp only: snd_conv attempts_tx)
  show "\<not> ready (init u)"
    by (simp add: init_def s)
next
  assume a: "\<not> fst (attempt u) \<and> \<not> fst (attempt (snd (attempt u)))
        \<and> fst (attempt (snd (attempt (snd (attempt u)))))"
  have n: "(5::nat) = Suc (Suc (Suc (Suc (Suc 0))))" "(3::nat) = Suc (Suc (Suc 0))" by simp_all
  from a have a1: "\<not> fst (attempt u)" and a2: "\<not> fst (attempt (snd (attempt u)))"
    and a3: "fst (attempt (snd (attempt (snd (attempt u)))))"
    by simp_all
  have "self_test_loop (Suc (Suc (Suc (Suc (Suc 0))))) u
      = (True, snd (attempt (snd (attempt (snd (attempt u))))))"
    by (simp only: self_test_loop_fail [OF a1] self_test_loop_fail [OF a2]
      self_test_loop_ok [OF a3])
  then show s: "self_test u = (True, ((snd \<circ> attempt) ^^ 3) u)"
    by (simp only: self_test_def n funpow.simps comp_apply id_apply)
  show "tx (snd (self_test u)) = tx u @ replicate 3 (lit ''AT'' @ [CR, LF])"
    unfolding s by (simp only: snd_conv attempts_tx)
  show "ready (init u)"
    by (simp add: init_def s)
next
  assume "fst (readline (uart_write u (lit ''AT'' @ [CR, LF]))) = Inl e"
  then show "\<not> fst (attempt u)"
    by (auto simp: attempt_def split: prod.splits sum.splits)
next
  show "fst (attempt u)
        = (\<exists>r. fst (readline (uart_write u (lit ''AT'' @ [CR, LF]))) = Inr r \<and> strip r = lit ''OK'')"
    by (auto simp: attempt_def split: prod.splits sum.splits)
qed


theorem self_test_attempts_witness:
  "self_test (script [Fault, Bytes [0xFF, LF], Bytes (lit ''ERR'' @ [CR, LF]), Fault, Fault,
        Bytes (lit ''OK'' @ [CR, LF])])
     = (False, \<lparr>rx = rx (script [Fault, Bytes [0xFF, LF], Bytes (lit ''ERR'' @ [CR, LF]), Fault,
                    Fault, Bytes (lit ''OK'' @ [CR, LF])]),
                polls = 5, tx = replicate 5 (lit ''AT'' @ [CR, LF])\<rparr>)
   \<and> \<not> ready (init (script [Fault, Bytes [0xFF, LF], Bytes (lit ''ERR'' @ [CR, LF]), Fault, Fault,
        Bytes (lit ''OK'' @ [CR, LF])]))
   \<and> self_test (script [Fault, Bytes [0xFF, LF], Bytes (lit ''OK'' @ [CR, LF]),
        Bytes (lit ''OK'' @ [CR, LF])])
     = (True, \<lparr>rx = rx (script [Fault, Bytes [0xFF, LF], Bytes (lit ''OK'' @ [CR, LF]),
                    Bytes (lit ''OK'' @ [CR, LF])]),
               polls = 3, tx = replicate 3 (lit ''AT'' @ [CR, LF])\<rparr>)
   \<and> ready (init (script [Fault, Bytes [0xFF, LF], Bytes (lit ''OK'' @ [CR, LF]),
        Bytes (lit ''OK'' @ [CR, LF])]))"
proof -
  let ?AT = "lit ''AT'' @ [CR, LF]"
  let ?uA = "script [Fault, Bytes [0xFF, LF], Bytes (lit ''ERR'' @ [CR, LF]), Fault, Fault,
        Bytes (lit ''OK'' @ [CR, LF])]"
  let ?uB = "script [Fault, Bytes [0xFF, LF], Bytes (lit ''OK'' @ [CR, LF]),
        Bytes (lit ''OK'' @ [CR, LF])]"
  let ?A = "\<lambda>k. \<lparr>rx = rx ?uA, polls = k, tx = replicate k ?AT\<rparr>"
  let ?B = "\<lambda>k. \<lparr>rx = rx ?uB, polls = k, tx = replicate k ?AT\<rparr>"
  have rxA: "rx ?uA 0 = Fault" "rx ?uA (Suc 0) = Bytes [0xFF, LF]"
    "rx ?uA (Suc (Suc 0)) = Bytes (lit ''ERR'' @ [CR, LF])"
    "rx ?uA (Suc (Suc (Suc 0))) = Fault" "rx ?uA (Suc (Suc (Suc (Suc 0)))) = Fault"
    by (simp_all add: script_def)
  have rxB: "rx ?uB 0 = Fault" "rx ?uB (Suc 0) = Bytes [0xFF, LF]"
    "rx ?uB (Suc (Suc 0)) = Bytes (lit ''OK'' @ [CR, LF])"
    by (simp_all add: script_def)
  have bad: "endswith [0xFF, LF] [LF]" "decode [0xFF, LF] = Inl UnicodeDecodeError"
    by (simp_all add: endswith_def decode_def)
  have err: "endswith (lit ''ERR'' @ [CR, LF]) [LF]"
    "decode (lit ''ERR'' @ [CR, LF]) = Inr (lit ''ERR'' @ [CR, LF])"
    "unescape (str_strip fillers (lit ''ERR'' @ [CR, LF])) = lit ''ERR''"
    "(strip (lit ''ERR'') = lit ''OK'') = False"
    by (simp_all add: str_defs codec_defs)
  have ok: "endswith (lit ''OK'' @ [CR, LF]) [LF]"
    "decode (lit ''OK'' @ [CR, LF]) = Inr (lit ''OK'' @ [CR, LF])"
    "unescape (str_strip fillers (lit ''OK'' @ [CR, LF])) = lit ''OK''"
    "(strip (lit ''OK'') = lit ''OK'') = True"
    by (simp_all add: str_defs codec_defs)
  have A0: "?uA = ?A 0" and B0: "?uB = ?B 0" by (simp_all add: script_def)
  have A1: "attempt (?A 0) = (False, ?A (Suc 0))"
    using attempt_fault [of "?A 0"] rxA by simp
  have A2: "attempt (?A (Suc 0)) = (False, ?A (Suc (Suc 0)))"
    using attempt_undecodable [of "?A (Suc 0)", OF _ bad] rxA by simp
  have A3: "attempt (?A (Suc (Suc 0))) = (False, ?A (Suc (Suc (Suc 0))))"
    using attempt_line [of "?A (Suc (Suc 0))", OF _ err(1,2,3)] rxA err(4) by simp
  have A4: "attempt (?A (Suc (Suc (Suc 0)))) = (False, ?A (Suc (Suc (Suc (Suc 0)))))"
    using attempt_fault [of "?A (Suc (Suc (Suc 0)))"] rxA by simp
  have A5: "attempt (?A (Suc (Suc (Suc (Suc 0))))) = (False, ?A (Suc (Suc (Suc (Suc (Suc 0))))))"
    using attempt_fault [of "?A (Suc (Suc (Suc (Suc 0))))"] rxA by simp
  have B1: "attempt (?B 0) = (False, ?B (Suc 0))"
    using attempt_fault [of "?B 0"] rxB by simp
  have B2: "attempt (?B (Suc 0)) = (False, ?B (Suc (Suc 0)))"
    using attempt_undecodable [of "?B (Suc 0)", OF _ bad] rxB by simp
  have B3: "attempt (?B (Suc (Suc 0))) = (True, ?B (Suc (Suc (Suc 0))))"
    using attempt_line [of "?B (Suc (Suc 0))", OF _ ok(1,2,3)] rxB ok(4) by simp
  have n: "(5::nat) = Suc (Suc (Suc (Suc (Suc 0))))" "(3::nat) = Suc (Suc (Suc 0))" by simp_all
  have powA: "((snd \<circ> attempt) ^^ 0) (?A 0) = ?A 0"
    "((snd \<circ> attempt) ^^ Suc 0) (?A 0) = ?A (Suc 0)"
    "((snd \<circ> attempt) ^^ Suc (Suc 0)) (?A 0) = ?A (Suc (Suc 0))"
    "((snd \<circ> attempt) ^^ Suc (Suc (Suc 0))) (?A 0) = ?A (Suc (Suc (Suc 0)))"
    "((snd \<circ> attempt) ^^ Suc (Suc (Suc (Suc 0)))) (?A 0) = ?A (Suc (Suc (Suc (Suc 0))))"
    "((snd \<circ> attempt) ^^ Suc (Suc (Suc (Suc (Suc 0))))) (?A 0) = ?A (Suc (Suc (Suc (Suc (Suc 0)))))"
    by (simp_all only: funpow.simps comp_apply id_apply A1 A2 A3 A4 A5 snd_conv)
  have allA: "\<forall>k<5. \<not> fst (attempt (((snd \<circ> attempt) ^^ k) (?A 0)))"
  proof (intro allI impI)
    fix k :: nat assume "k < 5"
    then consider "k = 0" | "k = Suc 0" | "k = Suc (Suc 0)" | "k = Suc (Suc (Suc 0))"
      | "k = Suc (Suc (Suc (Suc 0)))" by linarith
    then show "\<not> fst (attempt (((snd \<circ> attempt) ^^ k) (?A 0)))"
      by cases (simp_all only: powA A1 A2 A3 A4 A5 fst_conv not_False_eq_True)
  qed
  note tA = self_test_attempts [THEN conjunct1, THEN mp, OF allA]
  have powB: "((snd \<circ> attempt) ^^ 3) (?B 0) = ?B (Suc (Suc (Suc 0)))"
    by (simp only: n funpow.simps comp_apply id_apply B1 B2 B3 snd_conv)
  have "\<not> fst (attempt (?B 0)) \<and> \<not> fst (attempt (snd (attempt (?B 0))))
      \<and> fst (attempt (snd (attempt (snd (attempt (?B 0))))))"
    by (simp only: B1 B2 B3 fst_conv snd_conv simp_thms)
  note tB = self_test_attempts [THEN conjunct2, THEN conjunct1, THEN mp, OF this]
  have p5: "((snd \<circ> attempt) ^^ 5) (?A 0) = ?A 5"
    using powA(6) by (simp only: n)
  have p3: "((snd \<circ> attempt) ^^ 3) (?B 0) = ?B 3"
    using powB by (simp only: n)
  from tA have "self_test (?A 0) = (False, ((snd \<circ> attempt) ^^ 5) (?A 0))"
    and rA: "\<not> ready (init (?A 0))"
    by blast+
  then have sA: "self_test (?A 0) = (False, ?A 5)" by (simp only: p5)
  from tB have "self_test (?B 0) = (True, ((snd \<circ> attempt) ^^ 3) (?B 0))"
    and rB: "ready (init (?B 0))"
    by blast+
  then have sB: "self_test (?B 0) = (True, ?B 3)" by (simp only: p3)
  note to_script = A0 [symmetric] B0 [symmetric]
  note sA' = sA [unfolded to_script] and rA' = rA [unfolded to_script]
    and sB' = sB [unfolded to_script] and rB' = rB [unfolded to_script]
  show ?thesis
    by (intro conjI) (rule sA' rA' sB' rB')+
qed

end
